theory Spec2Isabelle
  imports Complex_Main
begin

section \<open>Strings, errors and built-ins of the source language\<close>

text \<open>
  A Python \<open>str\<close> is a sequence of Unicode code points, so a character is modelled as
  its code point (a natural number) and a string as a list of code points. The input
  language of the bot is Russian, which rules out one-byte characters.
\<close>

type_synonym uchar = nat
type_synonym ustring = "uchar list"

datatype py_error = ValueError | AttributeError

text \<open>
  White space as \<open>str.strip()\<close>, \<open>str.isspace()\<close> and the class \<open>\s\<close> of the \<open>re\<close> module
  see it on \<open>str\<close> (CPython's \<open>Py_UNICODE_ISSPACE\<close>).
\<close>

definition is_space :: "uchar \<Rightarrow> bool" where
  "is_space c \<longleftrightarrow>
     (9 \<le> c \<and> c \<le> 13) \<or> (28 \<le> c \<and> c \<le> 32) \<or> c = 133 \<or> c = 160 \<or> c = 5760 \<or>
     (8192 \<le> c \<and> c \<le> 8202) \<or> c = 8232 \<or> c = 8233 \<or> c = 8239 \<or> c = 8287 \<or> c = 12288"

text \<open>
  Case: \<open>lower_cp\<close> is the one-to-one lower-case mapping that the \<open>re\<close> module applies to
  a character under \<open>re.IGNORECASE\<close>. It is exact on Basic Latin, Latin-1 Supplement
  (U+0000..U+00FF), Cyrillic U+0400..U+045F and U+0130, which is all that the letters of
  the four labels can meet; code points of other scripts are left as they are.
  \<open>ignorecase_fixes\<close> lists, for a lower-case letter of these blocks, the further
  lower-case code points that the \<open>re\<close> module treats as the same letter.
\<close>

definition lower_cp :: "uchar \<Rightarrow> uchar" where
  "lower_cp c =
     (if 65 \<le> c \<and> c \<le> 90 then c + 32
      else if 192 \<le> c \<and> c \<le> 222 \<and> c \<noteq> 215 then c + 32
      else if 1024 \<le> c \<and> c \<le> 1039 then c + 80
      else if 1040 \<le> c \<and> c \<le> 1071 then c + 32
      else if c = 304 then 105
      else c)"

text \<open>
  \<open>str.lower()\<close> itself follows the case tables of the Unicode standard, which belong to
  the language and not to the repository: the generator below takes the lower-casing
  function as its first argument \<open>lower\<close>, and what is proved of it holds for every such
  function. On a text of Basic Latin and of the Cyrillic letters U+0400..U+045F,
  \<open>str.lower()\<close> maps every character by \<open>lower_cp\<close>; \<open>lower_latin_cyrillic\<close> is that
  map, used to run the generator on concrete texts of these letters.
\<close>

definition lower_latin_cyrillic :: "ustring \<Rightarrow> ustring" where
  "lower_latin_cyrillic s = map lower_cp s"

definition ignorecase_fixes :: "uchar \<Rightarrow> uchar list" where
  "ignorecase_fixes c =
     (if c = 105 then [305]
      else if c = 115 then [383]
      else if c = 181 then [956]
      else if c = 1074 then [7296]
      else if c = 1076 then [7297]
      else if c = 1086 then [7298]
      else if c = 1089 then [7299]
      else if c = 1090 then [7300, 7301]
      else if c = 1098 then [7302]
      else [])"

text \<open>A lower-case pattern letter \<open>p\<close> against a character \<open>c\<close> under \<open>re.IGNORECASE\<close>.\<close>

definition ci_match :: "uchar \<Rightarrow> uchar \<Rightarrow> bool" where
  "ci_match p c \<longleftrightarrow> lower_cp c \<in> set (p # ignorecase_fixes p)"

text \<open>\<open>s.strip()\<close>: white space removed at both ends.\<close>

definition py_strip :: "ustring \<Rightarrow> ustring" where
  "py_strip s = rev (dropWhile is_space (rev (dropWhile is_space s)))"

text \<open>\<open>s.split(sep)\<close> for a one-character separator: one field more than separators.\<close>

fun py_split :: "uchar \<Rightarrow> ustring \<Rightarrow> ustring list" where
  "py_split sep [] = [[]]"
| "py_split sep (c # cs) =
     (if c = sep then [] # py_split sep cs
      else (case py_split sep cs of
              [] \<Rightarrow> [[c]]
            | w # ws \<Rightarrow> (c # w) # ws))"

text \<open>\<open>sep.join(parts)\<close>.\<close>

fun py_join :: "ustring \<Rightarrow> ustring list \<Rightarrow> ustring" where
  "py_join sep [] = []"
| "py_join sep [p] = p"
| "py_join sep (p # q # ps) = p @ sep @ py_join sep (q # ps)"

text \<open>\<open>range(start, stop, step)\<close>, listed. A zero step raises \<open>ValueError\<close>.\<close>

function range_up :: "int \<Rightarrow> int \<Rightarrow> int \<Rightarrow> int list" where
  "range_up i stop step =
     (if 0 < step \<and> i < stop then i # range_up (i + step) stop step else [])"
  by pat_completeness auto
termination
  by (relation "measure (\<lambda>(i, stop, step). nat (stop - i))") auto

declare range_up.simps [simp del]

function range_down :: "int \<Rightarrow> int \<Rightarrow> int \<Rightarrow> int list" where
  "range_down i stop step =
     (if step < 0 \<and> stop < i then i # range_down (i + step) stop step else [])"
  by pat_completeness auto
termination
  by (relation "measure (\<lambda>(i, stop, step). nat (i - stop))") auto

declare range_down.simps [simp del]

definition py_range :: "int \<Rightarrow> int \<Rightarrow> int \<Rightarrow> py_error + int list" where
  "py_range start stop step =
     (if step = 0 then Inl ValueError
      else if 0 < step then Inr (range_up start stop step)
      else Inr (range_down start stop step))"

text \<open>
  The slice \<open>xs[a:b]\<close>: a negative bound counts from the end, and both bounds are
  clamped to the list.
\<close>

definition slice_bound :: "int \<Rightarrow> int \<Rightarrow> nat" where
  "slice_bound n a = (if a < 0 then nat (max (a + n) 0) else nat (min a n))"

definition py_slice :: "'a list \<Rightarrow> int \<Rightarrow> int \<Rightarrow> 'a list" where
  "py_slice xs a b =
     (let n = int (length xs); lo = slice_bound n a; hi = slice_bound n b
      in take (hi - lo) (drop lo xs))"

section \<open>generator.py: split_into_blocks\<close>

text \<open>
  \<^verbatim>\<open>
  blocks = []
  for i in range(0, len(hashtags), size):
      blocks.append(hashtags[i:i + size])
  return blocks
  \<close>
\<close>

definition split_into_blocks :: "'a list \<Rightarrow> int \<Rightarrow> py_error + 'a list list" where
  "split_into_blocks hashtags sz =
     (case py_range 0 (int (length hashtags)) sz of
        Inl e \<Rightarrow> Inl e
      | Inr idx \<Rightarrow> Inr (map (\<lambda>i. py_slice hashtags i (i + sz)) idx))"

section \<open>The regular expressions of parse_input\<close>

text \<open>
  The two patterns are data of the source, interpreted by the backtracking matcher of
  the \<open>re\<close> module. They are embedded as syntax trees, and the matcher as the function
  \<open>ms\<close> that lists every way a pattern matches at the start of a string, in the order
  in which backtracking tries them: the first element is the match \<open>re\<close> reports. A match
  state is the text captured by group 1 so far and the text not yet consumed.
\<close>

datatype cls = Space | NotColon | AnyChar

fun in_cls :: "cls \<Rightarrow> uchar \<Rightarrow> bool" where
  "in_cls Space c = is_space c"
| "in_cls NotColon c = (c \<noteq> 58)"
| "in_cls AnyChar c = (c \<noteq> 10)"

datatype rx =
    Lit uchar
  | LitI uchar
  | Seq rx rx
  | Alt rx rx
  | StarG cls
  | PlusL cls
  | Group rx
  | Ahead rx
  | Eol
  | Eps

type_synonym mstate = "ustring option \<times> ustring"

text \<open>\<open>x*\<close> (greedy): the longest run first, then shorter ones down to the empty run.\<close>

fun star_greedy :: "(uchar \<Rightarrow> bool) \<Rightarrow> ustring \<Rightarrow> ustring list" where
  "star_greedy P [] = [[]]"
| "star_greedy P (c # cs) = (if P c then star_greedy P cs else []) @ [c # cs]"

text \<open>\<open>x+?\<close> (lazy): one character first, then longer runs.\<close>

fun plus_lazy :: "(uchar \<Rightarrow> bool) \<Rightarrow> ustring \<Rightarrow> ustring list" where
  "plus_lazy P [] = []"
| "plus_lazy P (c # cs) = (if P c then cs # plus_lazy P cs else [])"

text \<open>
  \<open>Lit\<close> is a literal without case (the colon), \<open>LitI\<close> a lower-case letter matched
  under \<open>re.IGNORECASE\<close>; \<open>Eol\<close> is \<open>$\<close>: the end of the string, or just before a line
  feed that ends it.
\<close>

fun ms :: "rx \<Rightarrow> mstate \<Rightarrow> mstate list" where
  "ms (Lit p) (g, s) =
     (case s of [] \<Rightarrow> [] | c # cs \<Rightarrow> if c = p then [(g, cs)] else [])"
| "ms (LitI p) (g, s) =
     (case s of [] \<Rightarrow> []
      | c # cs \<Rightarrow> if ci_match p c then [(g, cs)] else [])"
| "ms (Seq a b) st = concat (map (ms b) (ms a st))"
| "ms (Alt a b) st = ms a st @ ms b st"
| "ms (StarG k) (g, s) = map (Pair g) (star_greedy (in_cls k) s)"
| "ms (PlusL k) (g, s) = map (Pair g) (plus_lazy (in_cls k) s)"
| "ms (Group a) (g, s) =
     map (\<lambda>(_, r). (Some (take (length s - length r) s), r)) (ms a (g, s))"
| "ms (Ahead a) st = (if ms a st = [] then [] else [st])"
| "ms Eol (g, s) = (if s = [] \<or> s = [10] then [(g, s)] else [])"
| "ms Eps st = [st]"

text \<open>\<open>re.search\<close>: the first match at the leftmost position that has one.\<close>

fun re_search :: "rx \<Rightarrow> ustring \<Rightarrow> mstate option" where
  "re_search r [] = (case ms r (None, []) of [] \<Rightarrow> None | m # _ \<Rightarrow> Some m)"
| "re_search r (c # cs) =
     (case ms r (None, c # cs) of [] \<Rightarrow> re_search r cs | m # _ \<Rightarrow> Some m)"

fun word :: "ustring \<Rightarrow> rx" where
  "word [] = Eps"
| "word (c # cs) = Seq (LitI c) (word cs)"

text \<open>The labels, in lower case as the patterns spell them.\<close>

definition korni :: ustring where
  "korni = [1082, 1086, 1088, 1085, 1080]"

definition roots_en :: ustring where
  "roots_en = [114, 111, 111, 116, 115]"

definition suffiksy :: ustring where
  "suffiksy = [1089, 1091, 1092, 1092, 1080, 1082, 1089, 1099]"

definition suffixes_en :: ustring where
  "suffixes_en = [115, 117, 102, 102, 105, 120, 101, 115]"

definition roots_labels :: "ustring list" where
  "roots_labels = [korni, roots_en]"

definition suffixes_labels :: "ustring list" where
  "suffixes_labels = [suffiksy, suffixes_en]"

text \<open>
  \<^verbatim>\<open>(?:korni|roots)\s*:\s*([^:]+?)(?=\s*(?:suffiksy|suffixes)\s*:|$)\<close> and
  \<^verbatim>\<open>(?:suffiksy|suffixes)\s*:\s*(.+?)$\<close>, the Russian labels being written in Cyrillic in
  the source.
\<close>

definition roots_rx :: rx where
  "roots_rx =
     Seq (Alt (word korni) (word roots_en))
      (Seq (StarG Space)
        (Seq (Lit 58)
          (Seq (StarG Space)
            (Seq (Group (PlusL NotColon))
              (Ahead
                (Alt
                  (Seq (StarG Space)
                    (Seq (Alt (word suffiksy) (word suffixes_en))
                      (Seq (StarG Space) (Lit 58))))
                  Eol))))))"

definition suffixes_rx :: rx where
  "suffixes_rx =
     Seq (Alt (word suffiksy) (word suffixes_en))
      (Seq (StarG Space)
        (Seq (Lit 58)
          (Seq (StarG Space)
            (Seq (Group (PlusL AnyChar)) Eol))))"

section \<open>generator.py: parse_input\<close>

text \<open>\<^verbatim>\<open>re.sub(r'\s+', ' ', ...)\<close>: every maximal run of white space becomes one space.\<close>

function collapse_ws :: "ustring \<Rightarrow> ustring" where
  "collapse_ws [] = []"
| "collapse_ws (c # cs) =
     (if is_space c then 32 # collapse_ws (dropWhile is_space cs) else c # collapse_ws cs)"
  by pat_completeness auto
termination
  by (relation "measure length") (auto simp: length_dropWhile_le less_Suc_eq_le)

definition normalize :: "ustring \<Rightarrow> ustring" where
  "normalize text = collapse_ws (py_strip text)"

text \<open>\<^verbatim>\<open>[r.strip() for r in seg.split(",") if r.strip()]\<close>\<close>

definition tokens :: "ustring \<Rightarrow> ustring list" where
  "tokens seg = map py_strip (filter (\<lambda>r. py_strip r \<noteq> []) (py_split 44 seg))"

text \<open>
  One side of \<open>parse_input\<close>: search, and on a match strip group 1 and split it. Group 1
  of a match object is \<open>None\<close> when the group took no part in the match, and
  \<open>None.strip()\<close> raises \<open>AttributeError\<close>.
\<close>

definition parse_side :: "rx \<Rightarrow> ustring \<Rightarrow> py_error + ustring list" where
  "parse_side r text =
     (case re_search r text of
        None \<Rightarrow> Inr []
      | Some m \<Rightarrow>
          (case fst m of
             None \<Rightarrow> Inl AttributeError
           | Some g \<Rightarrow> Inr (tokens (py_strip g))))"

definition parse_input :: "ustring \<Rightarrow> py_error + (ustring list \<times> ustring list)" where
  "parse_input text =
     (let text = normalize text in
      case parse_side roots_rx text of
        Inl e \<Rightarrow> Inl e
      | Inr roots \<Rightarrow>
          (case parse_side suffixes_rx text of
             Inl e \<Rightarrow> Inl e
           | Inr suffixes \<Rightarrow> Inr (roots, suffixes)))"

section \<open>generator.py: generate_combinations and format_block\<close>

text \<open>
  The two nested loops add to a set (\<open>rt\<close> is the source's variable \<open>root\<close>, and
  \<open>lower\<close> is \<open>str.lower\<close>, see above). \<open>list(hashtags)\<close> then lists the set in an order
  that the language does not fix, so the function's result is a relation: any list
  without repetition that has exactly the elements of the set.
\<close>

fun suffix_loop ::
  "(ustring \<Rightarrow> ustring) \<Rightarrow> ustring \<Rightarrow> ustring list \<Rightarrow> ustring set \<Rightarrow> ustring set" where
  "suffix_loop lower rt [] hashtags = hashtags"
| "suffix_loop lower rt (suffix # rest) hashtags =
     (let suffix = py_strip suffix in
      if suffix = [] then suffix_loop lower rt rest hashtags
      else suffix_loop lower rt rest (insert (lower (35 # rt @ suffix)) hashtags))"

fun root_loop ::
  "(ustring \<Rightarrow> ustring) \<Rightarrow> ustring list \<Rightarrow> ustring list \<Rightarrow> ustring set \<Rightarrow> ustring set" where
  "root_loop lower [] suffixes hashtags = hashtags"
| "root_loop lower (rt # rest) suffixes hashtags =
     (let rt = py_strip rt in
      if rt = [] then root_loop lower rest suffixes hashtags
      else root_loop lower rest suffixes (suffix_loop lower rt suffixes hashtags))"

definition list_of_set :: "'a set \<Rightarrow> 'a list \<Rightarrow> bool" where
  "list_of_set H xs \<longleftrightarrow> set xs = H \<and> distinct xs"

definition generate_combinations ::
  "(ustring \<Rightarrow> ustring) \<Rightarrow> ustring list \<Rightarrow> ustring list \<Rightarrow> ustring list \<Rightarrow> bool" where
  "generate_combinations lower roots suffixes result \<longleftrightarrow>
     list_of_set (root_loop lower roots suffixes {}) result"

definition format_block :: "ustring list \<Rightarrow> ustring" where
  "format_block block = py_join [32] block"

section \<open>bot.py: the text of the file sent by handle_input\<close>

text \<open>\<open>str(n)\<close> of a non-negative integer.\<close>

fun str_nat :: "nat \<Rightarrow> ustring" where
  "str_nat n = (if n < 10 then [48 + n] else str_nat (n div 10) @ [48 + n mod 10])"

declare str_nat.simps [simp del]

text \<open>\<open>enumerate(xs, 1)\<close>\<close>

definition enumerate1 :: "'a list \<Rightarrow> (nat \<times> 'a) list" where
  "enumerate1 xs = zip [1..<Suc (length xs)] xs"

text \<open>
  \<^verbatim>\<open>
  all_hashtags_text = "\n\n".join([f"Blok {i}:\n{format_block(block)}"
                                   for i, block in enumerate(blocks, 1)])
  file_content = (f"Kheshtegi (vsego: {len(hashtags)})\n"
                  f"Korni: {', '.join(roots)}\n"
                  f"Suffiksy: {', '.join(suffixes)}\n"
                  f"{'=' * 40}\n\n"
                  f"{all_hashtags_text}")
  \<close>
  where the source writes the four Russian words in Cyrillic; the constants below hold
  their code points. The text is then encoded to UTF-8, which keeps lines as they are.
\<close>

definition blok :: ustring where
  "blok = [1041, 1083, 1086, 1082, 32]"

definition kheshtegi_vsego :: ustring where
  "kheshtegi_vsego =
     [1061, 1101, 1096, 1090, 1077, 1075, 1080, 32, 40, 1074, 1089, 1077, 1075, 1086, 58, 32]"

definition korni_prefix :: ustring where
  "korni_prefix = [1050, 1086, 1088, 1085, 1080, 58, 32]"

definition suffiksy_prefix :: ustring where
  "suffiksy_prefix = [1057, 1091, 1092, 1092, 1080, 1082, 1089, 1099, 58, 32]"

definition block_entry :: "nat \<times> ustring list \<Rightarrow> ustring" where
  "block_entry ib = blok @ str_nat (fst ib) @ [58, 10] @ format_block (snd ib)"

definition all_hashtags_text :: "ustring list list \<Rightarrow> ustring" where
  "all_hashtags_text blocks = py_join [10, 10] (map block_entry (enumerate1 blocks))"

definition file_content ::
  "ustring list \<Rightarrow> ustring list \<Rightarrow> ustring list \<Rightarrow> ustring list list \<Rightarrow> ustring" where
  "file_content hashtags roots suffixes blocks =
     kheshtegi_vsego @ str_nat (length hashtags) @ [41, 10]
     @ korni_prefix @ py_join [44, 32] roots @ [10]
     @ suffiksy_prefix @ py_join [44, 32] suffixes @ [10]
     @ replicate 40 61 @ [10, 10]
     @ all_hashtags_text blocks"

section \<open>The parser as the specification describes it\<close>

text \<open>
  The specification speaks of a label that occurs in the text, of the colon that follows
  it and of the text up to the next label. These notions are defined here on their own,
  without the patterns, to state what the patterns compute.

  \<open>ci_prefix l s\<close>: the text \<open>s\<close> starts with the label \<open>l\<close>, case ignored.
  \<open>label_occurs ls s\<close>: one of the labels \<open>ls\<close> occurs somewhere in \<open>s\<close>.
\<close>

fun ci_prefix :: "ustring \<Rightarrow> ustring \<Rightarrow> bool" where
  "ci_prefix [] s = True"
| "ci_prefix (p # ps) [] = False"
| "ci_prefix (p # ps) (c # cs) = (ci_match p c \<and> ci_prefix ps cs)"

definition label_at :: "ustring list \<Rightarrow> ustring \<Rightarrow> bool" where
  "label_at ls s \<longleftrightarrow> (\<exists>l \<in> set ls. ci_prefix l s)"

fun label_occurs :: "ustring list \<Rightarrow> ustring \<Rightarrow> bool" where
  "label_occurs ls [] = label_at ls []"
| "label_occurs ls (c # cs) = (label_at ls (c # cs) \<or> label_occurs ls cs)"

text \<open>A letter, and a label, that cannot stand for white space or for a colon.\<close>

definition plain_letter :: "uchar \<Rightarrow> bool" where
  "plain_letter p \<longleftrightarrow> (\<forall>x \<in> set (p # ignorecase_fixes p). \<not> is_space x \<and> x \<noteq> 58)"

definition plain_label :: "ustring \<Rightarrow> bool" where
  "plain_label l \<longleftrightarrow>
     l \<noteq> [] \<and> (\<forall>p \<in> set l. \<forall>c. ci_match p c \<longrightarrow> \<not> is_space c \<and> c \<noteq> 58)"

text \<open>
  \<open>label_colon ls s\<close>: \<open>s\<close> starts with one of the labels followed by a colon (white
  space may stand between the two); the result is the text after the colon.
\<close>

fun label_colon :: "ustring list \<Rightarrow> ustring \<Rightarrow> ustring option" where
  "label_colon [] s = None"
| "label_colon (l # ls) s =
     (if ci_prefix l s then
        (case dropWhile is_space (drop (length l) s) of
           [] \<Rightarrow> label_colon ls s
         | c # r \<Rightarrow> if c = 58 then Some r else label_colon ls s)
      else label_colon ls s)"

text \<open>The text after the colon of the first label that is followed by a colon.\<close>

fun after_label :: "ustring list \<Rightarrow> ustring \<Rightarrow> ustring option" where
  "after_label ls [] = label_colon ls []"
| "after_label ls (c # cs) =
     (case label_colon ls (c # cs) of
        Some r \<Rightarrow> Some r
      | None \<Rightarrow> after_label ls cs)"

text \<open>The text up to, and without, the next label that is followed by a colon.\<close>

fun upto_label :: "ustring list \<Rightarrow> ustring \<Rightarrow> ustring" where
  "upto_label ls [] = []"
| "upto_label ls (c # cs) =
     (if label_colon ls (c # cs) \<noteq> None then [] else c # upto_label ls cs)"

text \<open>
  The roots segment of the specification: all text after the colon of the roots label up
  to the next suffixes label followed by a colon, or to the end of the normalized text.
\<close>

definition spec_roots_segment :: "ustring \<Rightarrow> ustring option" where
  "spec_roots_segment text =
     (case after_label roots_labels (normalize text) of
        None \<Rightarrow> None
      | Some u \<Rightarrow> Some (upto_label suffixes_labels u))"

definition spec_roots :: "ustring \<Rightarrow> ustring list" where
  "spec_roots text = (case spec_roots_segment text of None \<Rightarrow> [] | Some seg \<Rightarrow> tokens seg)"


text \<open>
  Where the captured roots segment may stop, which is what the look-ahead of the roots
  pattern tests: a suffixes label with its colon comes next, after white space if any,
  or the text ends (a line feed may still stand before the end).
\<close>

definition segment_end :: "ustring \<Rightarrow> bool" where
  "segment_end s \<longleftrightarrow>
     label_colon suffixes_labels (dropWhile is_space s) \<noteq> None \<or> s = [] \<or> s = [10]"

text \<open>
  The roots pattern in two parts: after the label and its colon comes \<open>roots_tail\<close>, the
  skipped white space, the captured group and the look-ahead \<open>roots_ahead\<close>.
\<close>

definition roots_ahead :: rx where
  "roots_ahead = Ahead (Alt (Seq (StarG Space)
                    (Seq (Alt (word suffiksy) (word suffixes_en))
                      (Seq (StarG Space) (Lit 58)))) Eol)"

definition roots_tail :: rx where
  "roots_tail = Seq (StarG Space) (Seq (Group (PlusL NotColon)) roots_ahead)"

section \<open>The file as the specification describes it\<close>

text \<open>
  The lines of the blocks: for block number \<open>i\<close> a line with the word \<open>Blok\<close> (in
  Cyrillic), the number and a colon, then the line of its hashtags; one empty line
  between two blocks.
\<close>

fun block_lines :: "nat \<Rightarrow> ustring list list \<Rightarrow> ustring list" where
  "block_lines i [] = []"
| "block_lines i [b] = [blok @ str_nat i @ [58], format_block b]"
| "block_lines i (b # b' # bs) =
     [blok @ str_nat i @ [58], format_block b, []] @ block_lines (Suc i) (b' # bs)"

text \<open>The lines of the whole file.\<close>

definition file_lines ::
  "ustring list \<Rightarrow> ustring list \<Rightarrow> ustring list \<Rightarrow> ustring list list \<Rightarrow> ustring list" where
  "file_lines hashtags roots suffixes blocks =
     [kheshtegi_vsego @ str_nat (length hashtags) @ [41],
      korni_prefix @ py_join [44, 32] roots,
      suffiksy_prefix @ py_join [44, 32] suffixes,
      replicate 40 61,
      []] @ block_lines 1 blocks"


section \<open>Blocks\<close>

lemma div_ceiling_shift:
  assumes "0 < (n::int)"
  shows "- (- a div n) = (a + n - 1) div n"
proof -
  let ?r = "a mod n"
  have r: "0 \<le> ?r" "?r < n" using assms by simp_all
  have "a + n - 1 = n * (a div n) + (?r + n - 1)" by (simp add: algebra_simps)
  then have "(a + n - 1) div n = (n * (a div n) + (?r + n - 1)) div n" by (rule arg_cong)
  also have "\<dots> = a div n + (?r + n - 1) div n"
    using assms by (subst div_mult_self4) simp_all
  finally have e: "(a + n - 1) div n = a div n + (?r + n - 1) div n" .
  show ?thesis
  proof (cases "?r = 0")
    case True
    then have "(?r + n - 1) div n = 0" using assms by (simp add: div_pos_pos_trivial)
    moreover have "- a div n = - (a div n)"
      using True assms zdiv_zminus1_eq_if[of n a] by auto
    ultimately show ?thesis using e by simp
  next
    case False
    have "?r + n - 1 = n + (?r - 1)" by simp
    then have "(?r + n - 1) div n = (n + (?r - 1)) div n" by (rule arg_cong)
    also have "\<dots> = 1 + (?r - 1) div n" using assms by (subst div_add_self1) simp_all
    also have "(?r - 1) div n = 0" using r False by (simp add: div_pos_pos_trivial)
    finally have "(?r + n - 1) div n = 1" by simp
    moreover have "- a div n = - (a div n) - 1"
      using False assms zdiv_zminus1_eq_if[of n a] by auto
    ultimately show ?thesis using e by simp
  qed
qed

lemma range_up_Nil: "range_up i stop n = [] \<longleftrightarrow> \<not> (0 < n \<and> i < stop)"
  by (subst range_up.simps) simp

lemma range_up_concat:
  "0 < n \<Longrightarrow> 0 \<le> i \<Longrightarrow>
   concat (map (\<lambda>i. py_slice xs i (i + n)) (range_up i (int (length xs)) n)) = drop (nat i) xs"
proof (induction i "int (length xs)" n rule: range_up.induct)
  case (1 i step)
  show ?case
  proof (cases "i < int (length xs)")
    case True
    have sl: "py_slice xs i (i + step) = take (nat step) (drop (nat i) xs)"
      using True 1(2,3) by (auto simp: py_slice_def slice_bound_def Let_def min_def nat_add_distrib)
    have dd: "drop (nat (i + step)) xs = drop (nat step) (drop (nat i) xs)"
      using 1(2,3) by (simp add: nat_add_distrib add.commute)
    have "concat (map (\<lambda>i. py_slice xs i (i + step)) (range_up (i + step) (int (length xs)) step))
            = drop (nat step) (drop (nat i) xs)"
      using 1 True dd by simp
    then have "concat (map (\<lambda>i. py_slice xs i (i + step)) (range_up i (int (length xs)) step))
            = take (nat step) (drop (nat i) xs) @ drop (nat step) (drop (nat i) xs)"
      using True 1(2) sl by (subst range_up.simps) simp
    then show ?thesis by (simp only: append_take_drop_id)
  next
    case False
    then show ?thesis using 1(3) by (subst range_up.simps) simp
  qed
qed

lemma range_up_length:
  "0 < n \<Longrightarrow> int (length (range_up i stop n)) = max 0 ((stop - i + n - 1) div n)"
proof (induction i stop n rule: range_up.induct)
  case (1 i stop step)
  show ?case
  proof (cases "i < stop")
    case True
    have "stop - i + step - 1 = (stop - (i + step) + step - 1) + step" by simp
    then have "(stop - i + step - 1) div step = ((stop - (i + step) + step - 1) + step) div step"
      by (rule arg_cong)
    also have "\<dots> = (stop - (i + step) + step - 1) div step + 1"
      using 1(2) by (subst div_add_self2) simp_all
    finally have st: "(stop - i + step - 1) div step = (stop - (i + step) + step - 1) div step + 1" .
    have "0 \<le> (stop - (i + step) + step - 1) div step"
      using True 1(2) by (simp add: pos_imp_zdiv_nonneg_iff)
    with st show ?thesis using 1 True
      by (subst range_up.simps) (simp add: max_def)
  next
    case False
    have "(stop - i + step - 1) div step \<le> (step - 1) div step"
      using False 1(2) by (intro zdiv_mono1) auto
    also have "(step - 1) div step = 0" using 1(2) by (simp add: div_pos_pos_trivial)
    finally have "(stop - i + step - 1) div step \<le> 0" .
    with False show ?thesis by (subst range_up.simps) (simp add: max_def)
  qed
qed

lemma slice_block_length:
  "0 < n \<Longrightarrow> 0 \<le> i \<Longrightarrow> i < int (length xs) \<Longrightarrow>
   length (py_slice xs i (i + n)) = min (nat n) (length xs - nat i)"
  by (auto simp: py_slice_def slice_bound_def Let_def min_def nat_add_distrib)

lemma range_up_blocks_nonempty:
  "0 < n \<Longrightarrow> 0 \<le> i \<Longrightarrow>
   b \<in> set (map (\<lambda>i. py_slice xs i (i + n)) (range_up i (int (length xs)) n)) \<Longrightarrow>
   0 < length b \<and> int (length b) \<le> n"
proof (induction i "int (length xs)" n rule: range_up.induct)
  case (1 i step)
  show ?case
  proof (cases "i < int (length xs)")
    case True
    from 1(4) True 1(2) have "b = py_slice xs i (i + step) \<or>
        b \<in> set (map (\<lambda>i. py_slice xs i (i + step)) (range_up (i + step) (int (length xs)) step))"
      by (subst (asm) range_up.simps) auto
    then show ?thesis
    proof
      assume "b = py_slice xs i (i + step)"
      then show ?thesis using slice_block_length[OF 1(2,3) True] True 1(2,3) by auto
    next
      assume "b \<in> set (map (\<lambda>i. py_slice xs i (i + step)) (range_up (i + step) (int (length xs)) step))"
      then show ?thesis using 1(1)[OF _ 1(2)] True 1(2,3) by simp
    qed
  next
    case False
    with 1(4) show ?thesis by (subst (asm) range_up.simps) simp
  qed
qed

lemma range_up_blocks_full:
  "0 < n \<Longrightarrow> 0 \<le> i \<Longrightarrow>
   b \<in> set (butlast (map (\<lambda>i. py_slice xs i (i + n)) (range_up i (int (length xs)) n))) \<Longrightarrow>
   int (length b) = n"
proof (induction i "int (length xs)" n rule: range_up.induct)
  case (1 i step)
  show ?case
  proof (cases "i < int (length xs)")
    case True
    let ?rest = "map (\<lambda>i. py_slice xs i (i + step)) (range_up (i + step) (int (length xs)) step)"
    from 1(4) True 1(2) have mem: "b \<in> set (butlast (py_slice xs i (i + step) # ?rest))"
      by (subst (asm) range_up.simps) simp
    show ?thesis
    proof (cases "?rest = []")
      case True
      with mem show ?thesis by simp
    next
      case False
      then have lt: "i + step < int (length xs)" by (simp add: range_up_Nil)
      from mem False have "b = py_slice xs i (i + step) \<or> b \<in> set (butlast ?rest)" by simp
      then show ?thesis
      proof
        assume "b = py_slice xs i (i + step)"
        then show ?thesis using slice_block_length[OF 1(2,3) True] lt 1(2,3) by auto
      next
        assume "b \<in> set (butlast ?rest)"
        then show ?thesis using 1(1)[OF _ 1(2)] True 1(2,3) by simp
      qed
    qed
  next
    case False
    with 1(4) show ?thesis by (subst (asm) range_up.simps) simp
  qed
qed

text \<open>
  Claim C4. For a positive block size \<open>n\<close>, \<open>split_into_blocks\<close> returns
  \<open>\<lceil>L / n\<rceil>\<close> blocks for a list of length \<open>L\<close> (none for the empty list), the blocks
  concatenated in order are the list, every block but the last has exactly \<open>n\<close>
  elements, and every block, so also the last, has between 1 and \<open>n\<close> elements.
\<close>

theorem split_into_blocks_partition:
  assumes "0 < n"
  shows "\<exists>bs. split_into_blocks xs n = Inr bs
          \<and> int (length bs) = \<lceil>real (length xs) / real_of_int n\<rceil>
          \<and> (xs = [] \<longrightarrow> bs = [])
          \<and> concat bs = xs
          \<and> (\<forall>b \<in> set (butlast bs). int (length b) = n)
          \<and> (\<forall>b \<in> set bs. 0 < length b \<and> int (length b) \<le> n)"
proof -
  let ?bs = "map (\<lambda>i. py_slice xs i (i + n)) (range_up 0 (int (length xs)) n)"
  have eq: "split_into_blocks xs n = Inr ?bs"
    using assms by (simp add: split_into_blocks_def py_range_def)
  have "\<lceil>real (length xs) / real_of_int n\<rceil> = - (- int (length xs) div n)"
    using ceiling_divide_eq_div[of "int (length xs)" n] by simp
  also have "\<dots> = (int (length xs) + n - 1) div n"
    using assms by (rule div_ceiling_shift)
  finally have ce: "\<lceil>real (length xs) / real_of_int n\<rceil> = (int (length xs) + n - 1) div n" .
  have nn: "0 \<le> (int (length xs) + n - 1) div n"
    using assms by (simp add: pos_imp_zdiv_nonneg_iff)
  have len: "int (length ?bs) = \<lceil>real (length xs) / real_of_int n\<rceil>"
    using range_up_length[OF assms, of 0 "int (length xs)"] nn ce by simp
  have emp: "xs = [] \<longrightarrow> ?bs = []"
    by (subst range_up.simps) simp
  have cc: "concat ?bs = xs"
    using range_up_concat[OF assms, of 0 xs] by simp
  have full: "\<forall>b \<in> set (butlast ?bs). int (length b) = n"
    using range_up_blocks_full[OF assms, of 0 _ xs] by simp
  have ne: "\<forall>b \<in> set ?bs. 0 < length b \<and> int (length b) \<le> n"
    using range_up_blocks_nonempty[OF assms, of 0 _ xs] by simp
  show ?thesis
    by (intro exI[of _ ?bs] conjI eq len emp cc full ne)
qed

theorem split_into_blocks_partition_witness:
  "(0::int) < 2 \<and>
   (\<exists>bs. split_into_blocks [1, 2, 3, 4, 5 :: nat] 2 = Inr bs
      \<and> int (length bs) = 3
      \<and> concat bs = [1, 2, 3, 4, 5]
      \<and> (\<forall>b \<in> set (butlast bs). int (length b) = 2)
      \<and> (\<forall>b \<in> set bs. 0 < length b \<and> int (length b) \<le> 2))"
proof -
  have c: "\<lceil>real (length [1, 2, 3, 4, 5 :: nat]) / real_of_int 2\<rceil> = 3"
    by (simp add: ceiling_eq_iff)
  show ?thesis
    using split_into_blocks_partition[of 2 "[1, 2, 3, 4, 5 :: nat]"] unfolding c by simp
qed

text \<open>
  Claim C10. The block size is not validated: with a negative size a non-empty list
  gives no block at all, and with size 0 the call raises (the \<open>ValueError\<close> of
  \<open>range\<close>) instead of returning.
\<close>

theorem split_into_blocks_unvalidated_size:
  "(hashtags \<noteq> [] \<and> sz < 0 \<longrightarrow> split_into_blocks hashtags sz = Inr [])
   \<and> split_into_blocks hashtags 0 = Inl ValueError"
  by (simp add: split_into_blocks_def py_range_def range_down.simps[of 0])

theorem split_into_blocks_unvalidated_size_witness:
  "[35 :: nat] \<noteq> [] \<and> (-3 :: int) < 0 \<and> split_into_blocks [35 :: nat] (-3) = Inr []
   \<and> split_into_blocks [35 :: nat] 0 = Inl ValueError"
  using split_into_blocks_unvalidated_size[of "[35 :: nat]" "-3"] by simp

section \<open>Stripping\<close>

lemma strip_Nil [simp]: "py_strip [] = []"
  by (simp add: py_strip_def)

lemma strip_hd: "py_strip s \<noteq> [] \<Longrightarrow> \<not> is_space (hd (py_strip s))"
proof -
  assume ne: "py_strip s \<noteq> []"
  let ?a = "dropWhile is_space s"
  let ?b = "dropWhile is_space (rev ?a)"
  from ne have b: "?b \<noteq> []" by (simp add: py_strip_def)
  have a: "?a \<noteq> []"
  proof
    assume "?a = []"
    then have "?b = []" by (metis dropWhile.simps(1) rev.simps(1))
    with b show False by contradiction
  qed
  have "?b = drop (length (takeWhile is_space (rev ?a))) (rev ?a)"
    by (simp add: dropWhile_eq_drop)
  then have "rev ?b = take (length ?a - length (takeWhile is_space (rev ?a))) ?a"
    by (simp add: rev_drop)
  moreover have "rev ?b \<noteq> []" using b by simp
  ultimately have "hd (rev ?b) = hd ?a"
    by (metis hd_take take_eq_Nil2 gr0I)
  moreover have "\<not> is_space (hd ?a)" using a by (rule hd_dropWhile)
  ultimately show ?thesis by (simp add: py_strip_def)
qed

lemma strip_last: "py_strip s \<noteq> [] \<Longrightarrow> \<not> is_space (last (py_strip s))"
proof -
  assume ne: "py_strip s \<noteq> []"
  let ?b = "dropWhile is_space (rev (dropWhile is_space s))"
  from ne have b: "?b \<noteq> []" by (simp add: py_strip_def)
  then have "\<not> is_space (hd ?b)" by (rule hd_dropWhile)
  then show ?thesis using b by (simp add: py_strip_def last_rev)
qed

lemma strip_fixed:
  "s = [] \<or> (\<not> is_space (hd s) \<and> \<not> is_space (last s)) \<Longrightarrow> py_strip s = s"
proof (cases "s = []")
  case True
  then show ?thesis by simp
next
  case False
  assume "s = [] \<or> (\<not> is_space (hd s) \<and> \<not> is_space (last s))"
  with False have h: "\<not> is_space (hd s)" and l: "\<not> is_space (last s)" by auto
  have 1: "dropWhile is_space s = s" using h by (simp add: dropWhile_eq_self_iff)
  have "hd (rev s) = last s" using False by (simp add: hd_rev)
  then have 2: "dropWhile is_space (rev s) = rev s" using l by (simp add: dropWhile_eq_self_iff)
  show ?thesis by (simp add: py_strip_def 1 2)
qed

lemma strip_idem [simp]: "py_strip (py_strip s) = py_strip s"
  using strip_hd[of s] strip_last[of s] by (intro strip_fixed) auto

section \<open>Hashtags\<close>

lemma suffix_loop_eq:
  "suffix_loop lower rt S H =
     H \<union> {lower (35 # rt @ py_strip s) | s. s \<in> set S \<and> py_strip s \<noteq> []}"
  by (induction S arbitrary: H) (auto simp: Let_def)

lemma root_loop_eq:
  "root_loop lower R S H =
     H \<union> {lower (35 # py_strip r @ py_strip s) | r s.
            r \<in> set R \<and> s \<in> set S \<and> py_strip r \<noteq> [] \<and> py_strip s \<noteq> []}"
proof (induction R arbitrary: H)
  case Nil
  then show ?case by simp
next
  case (Cons r R)
  show ?case
    by (simp add: Let_def Cons suffix_loop_eq) blast
qed

lemma root_loop_empty:
  "root_loop lower R S {} = {} \<longleftrightarrow>
     (\<forall>r \<in> set R. py_strip r = []) \<or> (\<forall>s \<in> set S. py_strip s = [])"
  unfolding root_loop_eq by blast

lemma generate_combinations_set:
  "generate_combinations lower R S result \<Longrightarrow>
   set result = {lower (35 # py_strip r @ py_strip s) | r s.
            r \<in> set R \<and> s \<in> set S \<and> py_strip r \<noteq> [] \<and> py_strip s \<noteq> []}"
  by (simp add: generate_combinations_def list_of_set_def root_loop_eq)

lemma generate_combinations_distinct:
  "generate_combinations lower R S result \<Longrightarrow> distinct result"
  by (simp add: generate_combinations_def list_of_set_def)

lemma distinct_count_list_one: "distinct xs \<Longrightarrow> x \<in> set xs \<Longrightarrow> count_list xs x = 1"
  by (induction xs) auto

text \<open>The definitions unfolded to evaluate the functions on concrete texts.\<close>

lemmas ev = py_strip_def is_space_def lower_latin_cyrillic_def lower_cp_def
  generate_combinations_def list_of_set_def Let_def

text \<open>
  Claim C2. Whatever list \<open>generate_combinations\<close> returns for the lists \<open>roots\<close> and
  \<open>suffixes\<close>, it contains, for every root \<open>r\<close> and suffix \<open>s\<close> of them that are not
  empty after trimming, the string \<open>#\<close> followed by the trimmed \<open>r\<close> and the trimmed
  \<open>s\<close>, lower-cased by the very function \<open>lower\<close> that the generator applies
  (\<open>str.lower\<close>, whatever its case table).
\<close>

theorem generate_combinations_complete:
  assumes "generate_combinations lower roots suffixes result"
    and "r \<in> set roots" and "s \<in> set suffixes"
    and "py_strip r \<noteq> []" and "py_strip s \<noteq> []"
  shows "lower (35 # py_strip r @ py_strip s) \<in> set result"
  unfolding generate_combinations_set[OF assms(1)] using assms(2-5) by blast

theorem generate_combinations_complete_witness:
  "generate_combinations lower_latin_cyrillic [[32, 65], [32]] [[120, 32]] [[35, 97, 120]]
   \<and> [32, 65] \<in> set [[32, 65], [32 :: nat]] \<and> [120, 32] \<in> set [[120, 32 :: nat]]
   \<and> py_strip [32, 65] \<noteq> [] \<and> py_strip [120, 32] \<noteq> []
   \<and> lower_latin_cyrillic (35 # py_strip [32, 65] @ py_strip [120, 32]) \<in> set [[35, 97, 120]]"
proof -
  have g: "generate_combinations lower_latin_cyrillic [[32, 65], [32]] [[120, 32]] [[35, 97, 120]]"
    by (simp add: ev)
  have r: "[32, 65] \<in> set [[32, 65], [32 :: nat]]" and s: "[120, 32] \<in> set [[120, 32 :: nat]]"
    by simp_all
  have nr: "py_strip [32, 65] \<noteq> []" and ns: "py_strip [120, 32] \<noteq> []"
    by (simp_all add: ev)
  from generate_combinations_complete[OF g r s nr ns] g r s nr ns show ?thesis by blast
qed

text \<open>
  Claim C3. A list returned by \<open>generate_combinations\<close> has no two equal entries, also
  when the inputs repeat an entry or hold spellings that differ in case only: the
  hashtag of every pair of a non-blank root and a non-blank suffix occurs in it exactly
  once, so that pairs whose hashtags are the same string after lower-casing share one
  entry, and the list is as long as there are different lower-cased hashtags.
\<close>

theorem generate_combinations_unique:
  assumes "generate_combinations lower roots suffixes result"
  shows "distinct result
     \<and> (\<forall>r \<in> set roots. \<forall>s \<in> set suffixes. py_strip r \<noteq> [] \<longrightarrow> py_strip s \<noteq> [] \<longrightarrow>
           count_list result (lower (35 # py_strip r @ py_strip s)) = 1)
     \<and> length result =
         card {lower (35 # py_strip r @ py_strip s) | r s.
            r \<in> set roots \<and> s \<in> set suffixes \<and> py_strip r \<noteq> [] \<and> py_strip s \<noteq> []}"
proof (intro conjI ballI impI)
  show d: "distinct result" using assms by (rule generate_combinations_distinct)
  show "length result =
         card {lower (35 # py_strip r @ py_strip s) | r s.
            r \<in> set roots \<and> s \<in> set suffixes \<and> py_strip r \<noteq> [] \<and> py_strip s \<noteq> []}"
    using distinct_card[OF d] unfolding generate_combinations_set[OF assms] by simp
  fix r s
  assume "r \<in> set roots" "s \<in> set suffixes" "py_strip r \<noteq> []" "py_strip s \<noteq> []"
  then have "lower (35 # py_strip r @ py_strip s) \<in> set result"
    unfolding generate_combinations_set[OF assms] by blast
  with d show "count_list result (lower (35 # py_strip r @ py_strip s)) = 1"
    by (simp add: distinct_count_list_one)
qed

theorem generate_combinations_unique_witness:
  "generate_combinations lower_latin_cyrillic [[65], [97], [97, 32]] [[120], [88]] [[35, 97, 120]]
   \<and> distinct [[35, 97, 120 :: nat]]
   \<and> count_list [[35, 97, 120]] (lower_latin_cyrillic (35 # py_strip [65] @ py_strip [88])) = 1
   \<and> count_list [[35, 97, 120]] (lower_latin_cyrillic (35 # py_strip [97, 32] @ py_strip [120])) = 1
   \<and> length [[35, 97, 120 :: nat]] = 1"
proof -
  have g: "generate_combinations lower_latin_cyrillic [[65], [97], [97, 32]] [[120], [88]]
      [[35, 97, 120]]"
    by (simp add: ev)
  from generate_combinations_unique[OF g] g show ?thesis by (simp add: ev)
qed

text \<open>
  Claim C7, as stated: for non-empty lists the result is empty only if every entry of
  both lists is white space only. It fails for the root \<open>a\<close> and the suffix made of one
  space: the result is empty and the root is not blank.
\<close>

theorem generate_combinations_empty_counterexample:
  "[[97 :: nat]] \<noteq> [] \<and> [[32 :: nat]] \<noteq> []
   \<and> generate_combinations lower_latin_cyrillic [[97]] [[32]] []
   \<and> py_strip [97] \<noteq> []"
  by (simp add: ev)

text \<open>
  Claim C7, amended: \<open>generate_combinations\<close> returns the empty list exactly when every
  root is white space only or every suffix is white space only.
\<close>

theorem generate_combinations_empty_iff:
  "generate_combinations lower roots suffixes [] \<longleftrightarrow>
     (\<forall>r \<in> set roots. py_strip r = []) \<or> (\<forall>s \<in> set suffixes. py_strip s = [])"
proof -
  have "generate_combinations lower roots suffixes [] \<longleftrightarrow> root_loop lower roots suffixes {} = {}"
    by (auto simp: generate_combinations_def list_of_set_def)
  then show ?thesis by (simp only: root_loop_empty)
qed

theorem generate_combinations_empty_iff_witness:
  "generate_combinations lower_latin_cyrillic [[97], [98, 32]] [[32], [9, 10]] []
   \<and> \<not> generate_combinations lower_latin_cyrillic [[97], [32]] [[32], [120]] []"
  using generate_combinations_empty_iff[of lower_latin_cyrillic "[[97], [98, 32]]" "[[32], [9, 10]]"]
    generate_combinations_empty_iff[of lower_latin_cyrillic "[[97], [32]]" "[[32], [120]]"]
  by (simp add: py_strip_def is_space_def)

section \<open>Parser output\<close>

lemma tokens_elem: "x \<in> set (tokens seg) \<Longrightarrow> x \<noteq> [] \<and> py_strip x = x"
  by (auto simp: tokens_def)

lemma ms_Seq_elem:
  "m \<in> set (ms (Seq a b) st) \<longleftrightarrow> (\<exists>st' \<in> set (ms a st). m \<in> set (ms b st'))"
  by auto

lemma ms_Seq_fst:
  assumes "\<And>st' m. m \<in> set (ms b st') \<Longrightarrow> fst m \<noteq> None"
    and "m \<in> set (ms (Seq a b) st)"
  shows "fst m \<noteq> None"
  using assms unfolding ms_Seq_elem by blast

lemma ms_Group_fst: "m \<in> set (ms (Group a) st) \<Longrightarrow> fst m \<noteq> None"
  by (cases st) auto

lemma ms_Ahead_same: "m \<in> set (ms (Ahead a) st) \<Longrightarrow> m = st"
  by (auto split: if_splits)

lemma ms_Eol_same: "m \<in> set (ms Eol st) \<Longrightarrow> m = st"
  by (cases st) (auto split: if_splits)

lemma ms_Group_Ahead: "m \<in> set (ms (Seq (Group a) (Ahead x)) st) \<Longrightarrow> fst m \<noteq> None"
  unfolding ms_Seq_elem using ms_Group_fst ms_Ahead_same by blast

lemma ms_Group_Eol: "m \<in> set (ms (Seq (Group a) Eol) st) \<Longrightarrow> fst m \<noteq> None"
  unfolding ms_Seq_elem using ms_Group_fst ms_Eol_same by blast

lemma roots_rx_group: "m \<in> set (ms roots_rx st) \<Longrightarrow> fst m \<noteq> None"
  unfolding roots_rx_def
  by (rule ms_Seq_fst[OF ms_Seq_fst[OF ms_Seq_fst[OF ms_Seq_fst[OF ms_Group_Ahead]]]])

lemma suffixes_rx_group: "m \<in> set (ms suffixes_rx st) \<Longrightarrow> fst m \<noteq> None"
  unfolding suffixes_rx_def
  by (rule ms_Seq_fst[OF ms_Seq_fst[OF ms_Seq_fst[OF ms_Seq_fst[OF ms_Group_Eol]]]])

lemma re_search_Some: "re_search r t = Some m \<Longrightarrow> \<exists>s. m \<in> set (ms r (None, s))"
proof (induction t)
  case Nil
  then have "m \<in> set (ms r (None, []))" by (auto split: list.splits)
  then show ?case ..
next
  case (Cons c cs)
  show ?case
  proof (cases "ms r (None, c # cs)")
    case Nil
    with Cons show ?thesis by simp
  next
    case (Cons m' ms')
    with Cons.prems have "m \<in> set (ms r (None, c # cs))" by simp
    then show ?thesis ..
  qed
qed

lemma parse_side_Inr:
  assumes "\<And>m st. m \<in> set (ms r st) \<Longrightarrow> fst m \<noteq> None"
  shows "\<exists>xs. parse_side r t = Inr xs \<and> (\<forall>x \<in> set xs. x \<noteq> [] \<and> py_strip x = x)"
proof (cases "re_search r t")
  case None
  then show ?thesis by (simp add: parse_side_def)
next
  case (Some m)
  with re_search_Some assms have "fst m \<noteq> None" by blast
  then obtain g where "fst m = Some g" by auto
  with Some show ?thesis by (simp add: parse_side_def tokens_elem)
qed

lemma parse_input_Inr:
  "\<exists>R S. parse_input text = Inr (R, S) \<and> parse_side roots_rx (normalize text) = Inr R
      \<and> parse_side suffixes_rx (normalize text) = Inr S
      \<and> (\<forall>x \<in> set R \<union> set S. x \<noteq> [] \<and> py_strip x = x)"
proof -
  have "\<exists>R. parse_side roots_rx (normalize text) = Inr R \<and> (\<forall>x \<in> set R. x \<noteq> [] \<and> py_strip x = x)"
    by (rule parse_side_Inr) (rule roots_rx_group)
  then obtain R where R: "parse_side roots_rx (normalize text) = Inr R"
      "\<forall>x \<in> set R. x \<noteq> [] \<and> py_strip x = x" by blast
  have "\<exists>S. parse_side suffixes_rx (normalize text) = Inr S \<and> (\<forall>x \<in> set S. x \<noteq> [] \<and> py_strip x = x)"
    by (rule parse_side_Inr) (rule suffixes_rx_group)
  then obtain S where S: "parse_side suffixes_rx (normalize text) = Inr S"
      "\<forall>x \<in> set S. x \<noteq> [] \<and> py_strip x = x" by blast
  from R S show ?thesis by (auto simp: parse_input_def Let_def)
qed

section \<open>Labels\<close>

lemma lower_cp_space: "is_space c \<or> c = 58 \<Longrightarrow> lower_cp c = c"
  unfolding is_space_def lower_cp_def by auto

lemma plain_letter_match:
  assumes "plain_letter p" and "ci_match p c"
  shows "\<not> is_space c \<and> c \<noteq> 58"
proof (rule ccontr)
  assume "\<not> (\<not> is_space c \<and> c \<noteq> 58)"
  then have sc: "is_space c \<or> c = 58" by blast
  then have "lower_cp c = c" by (rule lower_cp_space)
  with assms(2) have "c \<in> set (p # ignorecase_fixes p)" by (simp add: ci_match_def)
  with assms(1) sc show False unfolding plain_letter_def by blast
qed

lemma plain_labelI: "l \<noteq> [] \<Longrightarrow> \<forall>p \<in> set l. plain_letter p \<Longrightarrow> plain_label l"
  unfolding plain_label_def using plain_letter_match by blast

lemma plain_labels:
  "plain_label korni" "plain_label roots_en" "plain_label suffiksy" "plain_label suffixes_en"
  by (rule plain_labelI; simp add: korni_def roots_en_def suffiksy_def suffixes_en_def
        plain_letter_def ignorecase_fixes_def is_space_def)+

lemma ms_word: "ms (word w) (g, s) = (if ci_prefix w s then [(g, drop (length w) s)] else [])"
proof (induction w arbitrary: s)
  case Nil
  then show ?case by simp
next
  case (Cons p ps)
  show ?case
  proof (cases s)
    case Nil
    then show ?thesis by simp
  next
    case (Cons c cs)
    then show ?thesis using Cons.IH[of cs] by simp
  qed
qed

lemma ms_Seq_Nil: "ms a st = [] \<Longrightarrow> ms (Seq a b) st = []"
  by simp

lemma ms_labels_Nil:
  "\<not> label_at [a, b] s \<Longrightarrow> ms (Alt (word a) (word b)) (g, s) = []"
  by (simp add: label_at_def ms_word)

lemma roots_rx_Nil: "\<not> label_at roots_labels s \<Longrightarrow> ms roots_rx (g, s) = []"
  unfolding roots_rx_def roots_labels_def by (rule ms_Seq_Nil) (rule ms_labels_Nil)

lemma suffixes_rx_Nil: "\<not> label_at suffixes_labels s \<Longrightarrow> ms suffixes_rx (g, s) = []"
  unfolding suffixes_rx_def suffixes_labels_def by (rule ms_Seq_Nil) (rule ms_labels_Nil)

lemma re_search_None:
  assumes "\<And>s. \<not> label_at ls s \<Longrightarrow> ms r (None, s) = []"
  shows "\<not> label_occurs ls t \<Longrightarrow> re_search r t = None"
  by (induction t) (simp_all add: assms)

lemma parse_side_absent:
  assumes "\<And>s. \<not> label_at ls s \<Longrightarrow> ms r (None, s) = []"
    and "\<not> label_occurs ls t"
  shows "parse_side r t = Inr []"
  using re_search_None[of ls r t, OF assms] by (simp add: parse_side_def)

section \<open>Labels survive normalisation\<close>

lemma ci_prefix_append: "ci_prefix l a \<Longrightarrow> ci_prefix l (a @ b)"
  by (induction l a rule: ci_prefix.induct) auto

lemma label_at_append: "label_at ls a \<Longrightarrow> label_at ls (a @ b)"
  unfolding label_at_def using ci_prefix_append by blast

lemma label_occurs_append: "label_occurs ls a \<Longrightarrow> label_occurs ls (a @ b)"
proof (induction a)
  case Nil
  then have "label_at ls ([] @ b)" using label_at_append[of ls "[]" b] by simp
  then show ?case by (cases b) simp_all
next
  case (Cons c a)
  then show ?case using label_at_append[of ls "c # a" b] by auto
qed

lemma label_occurs_Cons: "label_occurs ls s \<Longrightarrow> label_occurs ls (c # s)"
  by simp

lemma label_occurs_prepend: "label_occurs ls s \<Longrightarrow> label_occurs ls (a @ s)"
  by (induction a) simp_all

lemma label_occurs_take: "label_occurs ls (take k s) \<Longrightarrow> label_occurs ls s"
  using label_occurs_append[of ls "take k s" "drop k s"] by simp

lemma label_occurs_drop: "label_occurs ls (drop k s) \<Longrightarrow> label_occurs ls s"
  using label_occurs_prepend[of ls "drop k s" "take k s"] by simp

lemma strip_take_drop: "\<exists>j k. py_strip s = take k (drop j s)"
proof -
  let ?a = "dropWhile is_space s"
  obtain k where "rev (dropWhile is_space (rev ?a)) = take k ?a"
    by (metis dropWhile_eq_drop rev_drop rev_rev_ident)
  moreover obtain j where "?a = drop j s" by (metis dropWhile_eq_drop)
  ultimately show ?thesis unfolding py_strip_def by metis
qed

lemma label_occurs_strip: "label_occurs ls (py_strip s) \<Longrightarrow> label_occurs ls s"
  using strip_take_drop[of s] label_occurs_take label_occurs_drop by metis

lemma ci_prefix_collapse:
  "\<forall>p \<in> set l. \<not> ci_match p 32 \<Longrightarrow> ci_prefix l (collapse_ws s) \<Longrightarrow> ci_prefix l s"
proof (induction l arbitrary: s)
  case Nil
  then show ?case by simp
next
  case (Cons p ps)
  show ?case
  proof (cases s)
    case Nil
    with Cons.prems show ?thesis by simp
  next
    case (Cons c cs)
    with Cons.prems Cons.IH[of cs] show ?thesis by (auto split: if_splits)
  qed
qed

lemma plain_label_32: "plain_label l \<Longrightarrow> \<forall>p \<in> set l. \<not> ci_match p 32"
proof -
  assume pl: "plain_label l"
  have "is_space 32" by (simp add: is_space_def)
  with pl show ?thesis unfolding plain_label_def by blast
qed

lemma label_at_collapse:
  "\<forall>l \<in> set ls. plain_label l \<Longrightarrow> label_at ls (collapse_ws s) \<Longrightarrow> label_at ls s"
  unfolding label_at_def using ci_prefix_collapse plain_label_32 by blast

lemma label_at_space:
  assumes "\<forall>l \<in> set ls. plain_label l" and "is_space c"
  shows "\<not> label_at ls (c # s)"
proof
  assume "label_at ls (c # s)"
  then obtain l where l: "l \<in> set ls" "ci_prefix l (c # s)" unfolding label_at_def by blast
  with assms(1) have pl: "plain_label l" by blast
  then obtain p ps where "l = p # ps" unfolding plain_label_def by (cases l) auto
  with l(2) pl assms(2) show False unfolding plain_label_def by auto
qed

lemma label_occurs_dropWhile: "label_occurs ls (dropWhile P s) \<Longrightarrow> label_occurs ls s"
  using label_occurs_drop[of ls "length (takeWhile P s)" s] by (simp add: dropWhile_eq_drop)

lemma label_occurs_collapse:
  assumes pl: "\<forall>l \<in> set ls. plain_label l"
  shows "label_occurs ls (collapse_ws s) \<Longrightarrow> label_occurs ls s"
proof (induction s rule: collapse_ws.induct)
  case 1
  then show ?case by simp
next
  case (2 c cs)
  show ?case
  proof (cases "is_space c")
    case True
    with 2(3) have "label_at ls (32 # collapse_ws (dropWhile is_space cs))
        \<or> label_occurs ls (collapse_ws (dropWhile is_space cs))" by simp
    moreover have "\<not> label_at ls (32 # collapse_ws (dropWhile is_space cs))"
      by (rule label_at_space[OF pl]) (simp add: is_space_def)
    ultimately have "label_occurs ls (dropWhile is_space cs)" using 2(1)[OF True] by blast
    then have "label_occurs ls cs" by (rule label_occurs_dropWhile)
    then show ?thesis by simp
  next
    case False
    with 2(3) have "label_at ls (c # collapse_ws cs) \<or> label_occurs ls (collapse_ws cs)" by simp
    then show ?thesis
    proof
      assume "label_at ls (c # collapse_ws cs)"
      then have "label_at ls (collapse_ws (c # cs))" using False by simp
      then have "label_at ls (c # cs)" by (rule label_at_collapse[OF pl])
      then show ?thesis by simp
    next
      assume "label_occurs ls (collapse_ws cs)"
      then show ?thesis using 2(2)[OF False] by simp
    qed
  qed
qed

lemma label_occurs_normalize:
  "\<forall>l \<in> set ls. plain_label l \<Longrightarrow> label_occurs ls (normalize text) \<Longrightarrow> label_occurs ls text"
  unfolding normalize_def using label_occurs_collapse label_occurs_strip by blast

lemma plain_roots_labels: "\<forall>l \<in> set roots_labels. plain_label l"
  by (simp add: roots_labels_def plain_labels)

lemma plain_suffixes_labels: "\<forall>l \<in> set suffixes_labels. plain_label l"
  by (simp add: suffixes_labels_def plain_labels)

lemma parse_input_total_aux:
  "\<exists>R S. parse_input text = Inr (R, S)
     \<and> (\<not> label_occurs roots_labels text \<longrightarrow> R = [])
     \<and> (\<not> label_occurs suffixes_labels text \<longrightarrow> S = [])"
proof -
  obtain R S where RS: "parse_input text = Inr (R, S)"
      "parse_side roots_rx (normalize text) = Inr R"
      "parse_side suffixes_rx (normalize text) = Inr S"
    using parse_input_Inr[of "text"] by blast
  have "R = []" if "\<not> label_occurs roots_labels text"
  proof -
    from that have "\<not> label_occurs roots_labels (normalize text)"
      using label_occurs_normalize[OF plain_roots_labels] by blast
    then have "parse_side roots_rx (normalize text) = Inr []"
      by (rule parse_side_absent[rotated]) (rule roots_rx_Nil)
    with RS(2) show ?thesis by simp
  qed
  moreover have "S = []" if "\<not> label_occurs suffixes_labels text"
  proof -
    from that have "\<not> label_occurs suffixes_labels (normalize text)"
      using label_occurs_normalize[OF plain_suffixes_labels] by blast
    then have "parse_side suffixes_rx (normalize text) = Inr []"
      by (rule parse_side_absent[rotated]) (rule suffixes_rx_Nil)
    with RS(3) show ?thesis by simp
  qed
  ultimately show ?thesis using RS(1) by blast
qed

text \<open>The definitions unfolded to run the parser on a concrete text.\<close>

lemmas ev_parse = parse_input_def parse_side_def normalize_def py_strip_def tokens_def
  roots_rx_def suffixes_rx_def korni_def roots_en_def suffiksy_def suffixes_en_def
  ci_match_def lower_cp_def ignorecase_fixes_def is_space_def

text \<open>
  Claim C6. For every input text \<open>parse_input\<close> returns a pair of lists and raises
  nothing (the functions of the model are total, and the result is never the error
  value); when no roots label occurs in the text the roots list is empty, and when no
  suffixes label occurs the suffixes list is empty.
\<close>

theorem parse_input_total:
  "\<exists>roots suffixes. parse_input text = Inr (roots, suffixes)
     \<and> (\<not> label_occurs roots_labels text \<longrightarrow> roots = [])
     \<and> (\<not> label_occurs suffixes_labels text \<longrightarrow> suffixes = [])"
  by (rule parse_input_total_aux)

theorem parse_input_total_witness:
  "\<not> label_occurs suffixes_labels [114, 111, 111, 116, 115, 58, 32, 97]
   \<and> \<not> label_occurs roots_labels [115, 117, 102, 102, 105, 120, 101, 115, 58, 32, 99]
   \<and> (\<exists>roots. parse_input [114, 111, 111, 116, 115, 58, 32, 97] = Inr (roots, []))
   \<and> (\<exists>suffixes. parse_input [115, 117, 102, 102, 105, 120, 101, 115, 58, 32, 99] = Inr ([], suffixes))"
proof -
  have a: "\<not> label_occurs suffixes_labels [114, 111, 111, 116, 115, 58, 32, 97]"
    by (simp add: label_at_def suffixes_labels_def suffiksy_def suffixes_en_def ci_match_def
        lower_cp_def ignorecase_fixes_def)
  have b: "\<not> label_occurs roots_labels [115, 117, 102, 102, 105, 120, 101, 115, 58, 32, 99]"
    by (simp add: label_at_def roots_labels_def korni_def roots_en_def ci_match_def
        lower_cp_def ignorecase_fixes_def)
  from parse_input_total[of "[114, 111, 111, 116, 115, 58, 32, 97]"]
    parse_input_total[of "[115, 117, 102, 102, 105, 120, 101, 115, 58, 32, 99]"] a b
  show ?thesis by blast
qed

text \<open>
  Claim C9. Every entry of both lists returned by \<open>parse_input\<close> is non-empty and is its
  own trim, so the generator never skips an entry of parser output; and on parser
  output \<open>generate_combinations\<close> returns the empty list only when one of the two lists
  is empty (and then it does).
\<close>

theorem parse_input_entries_trimmed:
  assumes "parse_input text = Inr (roots, suffixes)"
  shows "(\<forall>x \<in> set roots \<union> set suffixes. x \<noteq> [] \<and> py_strip x = x)
     \<and> (\<forall>result. generate_combinations lower roots suffixes result \<longrightarrow>
            (result = [] \<longleftrightarrow> roots = [] \<or> suffixes = []))"
proof -
  from assms parse_input_Inr[of "text"]
  have tr: "\<forall>x \<in> set roots \<union> set suffixes. x \<noteq> [] \<and> py_strip x = x" by auto
  have "result = [] \<longleftrightarrow> roots = [] \<or> suffixes = []"
    if g: "generate_combinations lower roots suffixes result" for result
  proof -
    from g have s: "set result = root_loop lower roots suffixes {}"
      by (simp add: generate_combinations_def list_of_set_def)
    have "result = [] \<longleftrightarrow> root_loop lower roots suffixes {} = {}" using s by auto
    also have "\<dots> \<longleftrightarrow> (\<forall>r \<in> set roots. py_strip r = []) \<or> (\<forall>s \<in> set suffixes. py_strip s = [])"
      by (rule root_loop_empty)
    also have "\<dots> \<longleftrightarrow> roots = [] \<or> suffixes = []"
    proof
      assume "(\<forall>r \<in> set roots. py_strip r = []) \<or> (\<forall>s \<in> set suffixes. py_strip s = [])"
      then show "roots = [] \<or> suffixes = []"
      proof
        assume a: "\<forall>r \<in> set roots. py_strip r = []"
        have "roots = []"
        proof (cases roots)
          case Nil then show ?thesis .
        next
          case (Cons r rs)
          with tr a have "r \<noteq> []" "py_strip r = r" "py_strip r = []" by auto
          then show ?thesis by simp
        qed
        then show ?thesis ..
      next
        assume a: "\<forall>s \<in> set suffixes. py_strip s = []"
        have "suffixes = []"
        proof (cases suffixes)
          case Nil then show ?thesis .
        next
          case (Cons r rs)
          with tr a have "r \<noteq> []" "py_strip r = r" "py_strip r = []" by auto
          then show ?thesis by simp
        qed
        then show ?thesis ..
      qed
    next
      assume "roots = [] \<or> suffixes = []"
      then show "(\<forall>r \<in> set roots. py_strip r = []) \<or> (\<forall>s \<in> set suffixes. py_strip s = [])"
        by auto
    qed
    finally show ?thesis .
  qed
  with tr show ?thesis by blast
qed

theorem parse_input_entries_trimmed_witness:
  "parse_input [32, 114, 111, 111, 116, 115, 58, 32, 97, 32, 44, 32, 44, 98, 32, 115, 117, 102, 102, 105, 120, 101, 115, 58, 32, 99, 9]
     = Inr ([[97], [98]], [[99]])
   \<and> generate_combinations lower_latin_cyrillic [[97], [98]] [[99]] [[35, 98, 99], [35, 97, 99]]
   \<and> py_strip [97] = [97] \<and> py_strip [98] = [98] \<and> py_strip [99] = [99]
   \<and> [[35, 98, 99], [35, 97, 99 :: nat]] \<noteq> []"
proof -
  have p: "parse_input [32, 114, 111, 111, 116, 115, 58, 32, 97, 32, 44, 32, 44, 98, 32, 115, 117, 102, 102, 105, 120, 101, 115, 58, 32, 99, 9]
     = Inr ([[97], [98]], [[99]])"
    by (simp add: ev_parse)
  have g: "generate_combinations lower_latin_cyrillic [[97], [98]] [[99]] [[35, 98, 99], [35, 97, 99]]"
    by (auto simp: ev)
  from parse_input_entries_trimmed[OF p] p g show ?thesis by auto
qed

section \<open>The example of the specification\<close>

lemma split_into_blocks_single:
  assumes "xs \<noteq> []" and "int (length xs) \<le> n"
  shows "split_into_blocks xs n = Inr [xs]"
proof -
  from assms have n: "0 < n" by (cases xs) auto
  have "range_up 0 (int (length xs)) n = [0]"
    using assms n by (simp add: range_up.simps[of 0] range_up.simps[of "0 + n"] range_up.simps[of n])
  moreover have "py_slice xs 0 (0 + n) = xs"
    using assms n by (simp add: py_slice_def slice_bound_def Let_def min_def)
  ultimately show ?thesis using n by (simp add: split_into_blocks_def py_range_def)
qed

lemma example_hashtags:
  "root_loop lower [[1086, 1090, 1086, 1087, 1083, 1077, 1085, 1080, 1077], [1082, 1086, 1090, 1077, 1083]]
       [[1084, 1086, 1089, 1082, 1074, 1072], [1089, 1087, 1073]] {}
   = {lower [35, 1086, 1090, 1086, 1087, 1083, 1077, 1085, 1080, 1077, 1084, 1086, 1089, 1082, 1074, 1072],
      lower [35, 1086, 1090, 1086, 1087, 1083, 1077, 1085, 1080, 1077, 1089, 1087, 1073],
      lower [35, 1082, 1086, 1090, 1077, 1083, 1084, 1086, 1089, 1082, 1074, 1072],
      lower [35, 1082, 1086, 1090, 1077, 1083, 1089, 1087, 1073]}"
  by (simp add: py_strip_def is_space_def Let_def) blast

text \<open>
  Claim C5. The text is \<open>Korni: otoplenie, kotel\<close>, a line feed, \<open>Suffiksy: moskva, spb\<close>
  in Cyrillic (code points below). Parsing it gives the two roots and the two suffixes,
  every list that \<open>generate_combinations\<close> may return for them has exactly the four
  hashtags \<open>#otopleniemoskva\<close>, \<open>#otopleniespb\<close>, \<open>#kotelmoskva\<close>, \<open>#kotelspb\<close>, each once,
  and with any block size of at least 4 \<open>split_into_blocks\<close> puts them into one block.
  The four hashtags are in lower case already (\<open>#\<close> and Cyrillic letters of
  U+0430..U+044F): all that is asked of the lower-casing function is that it leaves
  these four strings as they are, as \<open>str.lower\<close> does.
\<close>

theorem end_to_end_example:
  assumes "\<forall>h \<in> {[35, 1086, 1090, 1086, 1087, 1083, 1077, 1085, 1080, 1077, 1084, 1086, 1089, 1082, 1074, 1072],
           [35, 1086, 1090, 1086, 1087, 1083, 1077, 1085, 1080, 1077, 1089, 1087, 1073],
           [35, 1082, 1086, 1090, 1077, 1083, 1084, 1086, 1089, 1082, 1074, 1072],
           [35, 1082, 1086, 1090, 1077, 1083, 1089, 1087, 1073]}. lower h = h"
  shows "parse_input [1050, 1086, 1088, 1085, 1080, 58, 32, 1086, 1090, 1086, 1087, 1083, 1077, 1085,
       1080, 1077, 44, 32, 1082, 1086, 1090, 1077, 1083, 10, 1057, 1091, 1092, 1092, 1080, 1082,
       1089, 1099, 58, 32, 1084, 1086, 1089, 1082, 1074, 1072, 44, 32, 1089, 1087, 1073]
     = Inr ([[1086, 1090, 1086, 1087, 1083, 1077, 1085, 1080, 1077], [1082, 1086, 1090, 1077, 1083]],
            [[1084, 1086, 1089, 1082, 1074, 1072], [1089, 1087, 1073]])
   \<and> (\<forall>result. generate_combinations lower
          [[1086, 1090, 1086, 1087, 1083, 1077, 1085, 1080, 1077], [1082, 1086, 1090, 1077, 1083]]
          [[1084, 1086, 1089, 1082, 1074, 1072], [1089, 1087, 1073]] result \<longrightarrow>
        set result =
          {[35, 1086, 1090, 1086, 1087, 1083, 1077, 1085, 1080, 1077, 1084, 1086, 1089, 1082, 1074, 1072],
           [35, 1086, 1090, 1086, 1087, 1083, 1077, 1085, 1080, 1077, 1089, 1087, 1073],
           [35, 1082, 1086, 1090, 1077, 1083, 1084, 1086, 1089, 1082, 1074, 1072],
           [35, 1082, 1086, 1090, 1077, 1083, 1089, 1087, 1073]}
        \<and> distinct result \<and> length result = 4
        \<and> (\<forall>n \<ge> 4. split_into_blocks result n = Inr [result]))"
proof (intro conjI allI impI)
  show "parse_input [1050, 1086, 1088, 1085, 1080, 58, 32, 1086, 1090, 1086, 1087, 1083, 1077, 1085,
       1080, 1077, 44, 32, 1082, 1086, 1090, 1077, 1083, 10, 1057, 1091, 1092, 1092, 1080, 1082,
       1089, 1099, 58, 32, 1084, 1086, 1089, 1082, 1074, 1072, 44, 32, 1089, 1087, 1073]
     = Inr ([[1086, 1090, 1086, 1087, 1083, 1077, 1085, 1080, 1077], [1082, 1086, 1090, 1077, 1083]],
            [[1084, 1086, 1089, 1082, 1074, 1072], [1089, 1087, 1073]])"
    by (simp add: ev_parse)
next
  fix result
  assume g: "generate_combinations lower
          [[1086, 1090, 1086, 1087, 1083, 1077, 1085, 1080, 1077], [1082, 1086, 1090, 1077, 1083]]
          [[1084, 1086, 1089, 1082, 1074, 1072], [1089, 1087, 1073]] result"
  let ?H = "{[35, 1086, 1090, 1086, 1087, 1083, 1077, 1085, 1080, 1077, 1084, 1086, 1089, 1082, 1074, 1072],
           [35, 1086, 1090, 1086, 1087, 1083, 1077, 1085, 1080, 1077, 1089, 1087, 1073],
           [35, 1082, 1086, 1090, 1077, 1083, 1084, 1086, 1089, 1082, 1074, 1072],
           [35, 1082, 1086, 1090, 1077, 1083, 1089, 1087, 1073 :: nat]}"
  from g have "set result = {lower [35, 1086, 1090, 1086, 1087, 1083, 1077, 1085, 1080, 1077, 1084, 1086, 1089, 1082, 1074, 1072],
      lower [35, 1086, 1090, 1086, 1087, 1083, 1077, 1085, 1080, 1077, 1089, 1087, 1073],
      lower [35, 1082, 1086, 1090, 1077, 1083, 1084, 1086, 1089, 1082, 1074, 1072],
      lower [35, 1082, 1086, 1090, 1077, 1083, 1089, 1087, 1073]}"
    unfolding generate_combinations_def list_of_set_def example_hashtags by simp
  with assms show s: "set result = ?H" by simp
  from g show d: "distinct result"
    by (simp add: generate_combinations_def list_of_set_def)
  have "card ?H = 4" by simp
  with s d show l: "length result = 4" using distinct_card[of result] by simp
  fix n :: int
  assume "4 \<le> n"
  with l show "split_into_blocks result n = Inr [result]"
    by (intro split_into_blocks_single) auto
qed

theorem end_to_end_example_witness:
  "lower_latin_cyrillic [35, 1086, 1090, 1086, 1087, 1083, 1077, 1085, 1080, 1077, 1084, 1086, 1089, 1082, 1074, 1072]
       = [35, 1086, 1090, 1086, 1087, 1083, 1077, 1085, 1080, 1077, 1084, 1086, 1089, 1082, 1074, 1072]
   \<and> lower_latin_cyrillic [35, 1086, 1090, 1086, 1087, 1083, 1077, 1085, 1080, 1077, 1089, 1087, 1073]
       = [35, 1086, 1090, 1086, 1087, 1083, 1077, 1085, 1080, 1077, 1089, 1087, 1073]
   \<and> lower_latin_cyrillic [35, 1082, 1086, 1090, 1077, 1083, 1084, 1086, 1089, 1082, 1074, 1072]
       = [35, 1082, 1086, 1090, 1077, 1083, 1084, 1086, 1089, 1082, 1074, 1072]
   \<and> lower_latin_cyrillic [35, 1082, 1086, 1090, 1077, 1083, 1089, 1087, 1073]
       = [35, 1082, 1086, 1090, 1077, 1083, 1089, 1087, 1073]
   \<and> generate_combinations lower_latin_cyrillic
     [[1086, 1090, 1086, 1087, 1083, 1077, 1085, 1080, 1077], [1082, 1086, 1090, 1077, 1083]]
     [[1084, 1086, 1089, 1082, 1074, 1072], [1089, 1087, 1073]]
     [[35, 1082, 1086, 1090, 1077, 1083, 1089, 1087, 1073],
      [35, 1086, 1090, 1086, 1087, 1083, 1077, 1085, 1080, 1077, 1084, 1086, 1089, 1082, 1074, 1072],
      [35, 1082, 1086, 1090, 1077, 1083, 1084, 1086, 1089, 1082, 1074, 1072],
      [35, 1086, 1090, 1086, 1087, 1083, 1077, 1085, 1080, 1077, 1089, 1087, 1073]]
   \<and> (4 :: int) \<le> 30
   \<and> split_into_blocks
     [[35, 1082, 1086, 1090, 1077, 1083, 1089, 1087, 1073],
      [35, 1086, 1090, 1086, 1087, 1083, 1077, 1085, 1080, 1077, 1084, 1086, 1089, 1082, 1074, 1072],
      [35, 1082, 1086, 1090, 1077, 1083, 1084, 1086, 1089, 1082, 1074, 1072],
      [35, 1086, 1090, 1086, 1087, 1083, 1077, 1085, 1080, 1077, 1089, 1087, 1073 :: nat]] 30
     = Inr [[[35, 1082, 1086, 1090, 1077, 1083, 1089, 1087, 1073],
      [35, 1086, 1090, 1086, 1087, 1083, 1077, 1085, 1080, 1077, 1084, 1086, 1089, 1082, 1074, 1072],
      [35, 1082, 1086, 1090, 1077, 1083, 1084, 1086, 1089, 1082, 1074, 1072],
      [35, 1086, 1090, 1086, 1087, 1083, 1077, 1085, 1080, 1077, 1089, 1087, 1073]]]"
proof -
  have h: "\<forall>h \<in> {[35, 1086, 1090, 1086, 1087, 1083, 1077, 1085, 1080, 1077, 1084, 1086, 1089, 1082, 1074, 1072],
           [35, 1086, 1090, 1086, 1087, 1083, 1077, 1085, 1080, 1077, 1089, 1087, 1073],
           [35, 1082, 1086, 1090, 1077, 1083, 1084, 1086, 1089, 1082, 1074, 1072],
           [35, 1082, 1086, 1090, 1077, 1083, 1089, 1087, 1073]}. lower_latin_cyrillic h = h"
    by (simp add: lower_latin_cyrillic_def lower_cp_def)
  have g: "generate_combinations lower_latin_cyrillic
     [[1086, 1090, 1086, 1087, 1083, 1077, 1085, 1080, 1077], [1082, 1086, 1090, 1077, 1083]]
     [[1084, 1086, 1089, 1082, 1074, 1072], [1089, 1087, 1073]]
     [[35, 1082, 1086, 1090, 1077, 1083, 1089, 1087, 1073],
      [35, 1086, 1090, 1086, 1087, 1083, 1077, 1085, 1080, 1077, 1084, 1086, 1089, 1082, 1074, 1072],
      [35, 1082, 1086, 1090, 1077, 1083, 1084, 1086, 1089, 1082, 1074, 1072],
      [35, 1086, 1090, 1086, 1087, 1083, 1077, 1085, 1080, 1077, 1089, 1087, 1073]]"
    unfolding generate_combinations_def list_of_set_def example_hashtags
    by (auto simp: lower_latin_cyrillic_def lower_cp_def)
  from end_to_end_example[OF h] g h show ?thesis by simp
qed

section \<open>The file layout\<close>

lemma py_join_Cons: "py_join sep (x # xs) = x @ (if xs = [] then [] else sep @ py_join sep xs)"
  by (cases xs) simp_all

lemma block_lines_Nil: "block_lines i bs = [] \<longleftrightarrow> bs = []"
  by (induction i bs rule: block_lines.induct) simp_all

lemma entries_join:
  "py_join [10, 10] (map block_entry (zip [i..<i + length bs] bs)) = py_join [10] (block_lines i bs)"
proof (induction i bs rule: block_lines.induct)
  case (1 i)
  then show ?case by simp
next
  case (2 i b)
  then show ?case by (simp add: block_entry_def upt_rec)
next
  case (3 i b b' bs)
  have u: "[i..<i + length (b # b' # bs)] = i # [Suc i..<Suc i + length (b' # bs)]"
    by (simp add: upt_rec)
  have ne: "block_lines (Suc i) (b' # bs) \<noteq> []" by (simp add: block_lines_Nil)
  have z: "zip [Suc i..<Suc i + length (b' # bs)] (b' # bs) \<noteq> []"
    by (simp add: upt_rec)
  show ?case
    unfolding u using 3 ne z
    by (simp add: py_join_Cons block_entry_def del: upt_Suc)
qed

lemma all_hashtags_text_lines: "all_hashtags_text blocks = py_join [10] (block_lines 1 blocks)"
  using entries_join[of 1 blocks] by (simp add: all_hashtags_text_def enumerate1_def)

lemma file_content_join:
  "blocks \<noteq> [] \<Longrightarrow>
   file_content hashtags roots suffixes blocks = py_join [10] (file_lines hashtags roots suffixes blocks)"
  by (simp add: file_content_def file_lines_def all_hashtags_text_lines py_join_Cons block_lines_Nil)

lemma py_split_no_sep: "sep \<notin> set a \<Longrightarrow> py_split sep a = [a]"
  by (induction a) auto

lemma py_split_append: "sep \<notin> set a \<Longrightarrow> py_split sep (a @ sep # r) = a # py_split sep r"
  by (induction a) auto

lemma py_split_join:
  "L \<noteq> [] \<Longrightarrow> \<forall>l \<in> set L. sep \<notin> set l \<Longrightarrow> py_split sep (py_join [sep] L) = L"
proof (induction L)
  case Nil
  then show ?case by simp
next
  case (Cons a L)
  then show ?case by (cases "L = []") (simp_all add: py_join_Cons py_split_no_sep py_split_append)
qed

lemma file_content_split:
  assumes "blocks \<noteq> []"
    and "\<forall>l \<in> set (file_lines hashtags roots suffixes blocks). 10 \<notin> set l"
  shows "py_split 10 (file_content hashtags roots suffixes blocks)
            = file_lines hashtags roots suffixes blocks"
proof -
  have "file_lines hashtags roots suffixes blocks \<noteq> []" by (simp add: file_lines_def)
  then show ?thesis unfolding file_content_join[OF assms(1)] using assms(2) by (rule py_split_join)
qed

text \<open>
  Claim C8, amended. For a non-empty sequence of blocks the text of the file is its
  lines joined by single line feeds, with no line feed at the end, and the lines are, in
  order: the header with the number of hashtags, the roots joined by comma and space
  after their label, the suffixes likewise, a line of exactly 40 equals signs, an empty
  line, and then for the block number \<open>i\<close> (from 1) the line made of the Russian word
  \<open>Blok\<close> in Cyrillic, a space, \<open>i\<close> and a colon, followed by the line of the block's
  hashtags joined by spaces, with exactly one empty line between two blocks. When no
  line contains a line feed, splitting the text at line feeds gives back these lines.
\<close>

theorem file_content_layout:
  assumes "blocks \<noteq> []"
  shows "file_content hashtags roots suffixes blocks
           = py_join [10] (file_lines hashtags roots suffixes blocks)
     \<and> ((\<forall>l \<in> set (file_lines hashtags roots suffixes blocks). 10 \<notin> set l) \<longrightarrow>
          py_split 10 (file_content hashtags roots suffixes blocks)
            = file_lines hashtags roots suffixes blocks)"
  using file_content_join[OF assms] file_content_split[OF assms] by blast

lemmas ev_lines = file_lines_def format_block_def blok_def kheshtegi_vsego_def korni_prefix_def
  suffiksy_prefix_def str_nat.simps

theorem file_content_layout_witness:
  "[[[35, 97, 120], [35, 98, 120]], [[35, 99, 120 :: nat]]] \<noteq> []
   \<and> file_content [[35, 97, 120], [35, 98, 120], [35, 99, 120]] [[97], [98], [99]] [[120]]
        [[[35, 97, 120], [35, 98, 120]], [[35, 99, 120]]]
      = py_join [10]
         [[1061, 1101, 1096, 1090, 1077, 1075, 1080, 32, 40, 1074, 1089, 1077, 1075, 1086, 58, 32, 51, 41],
          [1050, 1086, 1088, 1085, 1080, 58, 32, 97, 44, 32, 98, 44, 32, 99],
          [1057, 1091, 1092, 1092, 1080, 1082, 1089, 1099, 58, 32, 120],
          replicate 40 61,
          [],
          [1041, 1083, 1086, 1082, 32, 49, 58],
          [35, 97, 120, 32, 35, 98, 120],
          [],
          [1041, 1083, 1086, 1082, 32, 50, 58],
          [35, 99, 120]]
   \<and> py_split 10 (file_content [[35, 97, 120], [35, 98, 120], [35, 99, 120]] [[97], [98], [99]] [[120]]
        [[[35, 97, 120], [35, 98, 120]], [[35, 99, 120]]])
      = [[1061, 1101, 1096, 1090, 1077, 1075, 1080, 32, 40, 1074, 1089, 1077, 1075, 1086, 58, 32, 51, 41],
          [1050, 1086, 1088, 1085, 1080, 58, 32, 97, 44, 32, 98, 44, 32, 99],
          [1057, 1091, 1092, 1092, 1080, 1082, 1089, 1099, 58, 32, 120],
          replicate 40 61,
          [],
          [1041, 1083, 1086, 1082, 32, 49, 58],
          [35, 97, 120, 32, 35, 98, 120],
          [],
          [1041, 1083, 1086, 1082, 32, 50, 58],
          [35, 99, 120]]"
proof -
  let ?L = "[[1061, 1101, 1096, 1090, 1077, 1075, 1080, 32, 40, 1074, 1089, 1077, 1075, 1086, 58, 32, 51, 41],
          [1050, 1086, 1088, 1085, 1080, 58, 32, 97, 44, 32, 98, 44, 32, 99],
          [1057, 1091, 1092, 1092, 1080, 1082, 1089, 1099, 58, 32, 120],
          replicate 40 61,
          [],
          [1041, 1083, 1086, 1082, 32, 49, 58],
          [35, 97, 120, 32, 35, 98, 120],
          [],
          [1041, 1083, 1086, 1082, 32, 50, 58],
          [35, 99, 120 :: nat]]"
  have ne: "[[[35, 97, 120], [35, 98, 120]], [[35, 99, 120 :: nat]]] \<noteq> []" by simp
  have fl: "file_lines [[35, 97, 120], [35, 98, 120], [35, 99, 120]] [[97], [98], [99]] [[120]]
        [[[35, 97, 120], [35, 98, 120]], [[35, 99, 120]]] = ?L"
    by (simp add: ev_lines)
  have no: "\<forall>l \<in> set ?L. 10 \<notin> set l" by simp
  from file_content_layout[OF ne, of "[[35, 97, 120], [35, 98, 120], [35, 99, 120]]"
      "[[97], [98], [99]]" "[[120]]"] no ne
  show ?thesis unfolding fl by blast
qed

text \<open>
  Claim C8, as stated, names the line before a block \<open>Block i:\<close>. For one root \<open>a\<close>, one
  suffix \<open>x\<close> and the single block \<open>#ax\<close>, the sixth line of the file is the Cyrillic
  \<open>Blok 1:\<close> (code points 1041, 1083, 1086, 1082), not the Latin \<open>Block 1:\<close>.
\<close>

theorem file_content_block_word_counterexample:
  "py_split 10 (file_content [[35, 97, 120]] [[97]] [[120]] [[[35, 97, 120]]]) ! 5
     = [1041, 1083, 1086, 1082, 32, 49, 58]
   \<and> py_split 10 (file_content [[35, 97, 120]] [[97]] [[120]] [[[35, 97, 120]]]) ! 5
     \<noteq> [66, 108, 111, 99, 107, 32, 49, 58]"
proof -
  have fl: "file_lines [[35, 97, 120]] [[97]] [[120]] [[[35, 97, 120]]]
     = [[1061, 1101, 1096, 1090, 1077, 1075, 1080, 32, 40, 1074, 1089, 1077, 1075, 1086, 58, 32, 49, 41],
        [1050, 1086, 1088, 1085, 1080, 58, 32, 97],
        [1057, 1091, 1092, 1092, 1080, 1082, 1089, 1099, 58, 32, 120],
        replicate 40 61,
        [],
        [1041, 1083, 1086, 1082, 32, 49, 58],
        [35, 97, 120]]"
    by (simp add: ev_lines)
  have "py_split 10 (file_content [[35, 97, 120]] [[97]] [[120]] [[[35, 97, 120]]])
     = file_lines [[35, 97, 120]] [[97]] [[120]] [[[35, 97, 120]]]"
    by (rule file_content_split) (simp_all add: fl)
  then show ?thesis by (simp add: fl)
qed

section \<open>The patterns, piece by piece\<close>

lemma in_cls_Space: "in_cls Space = is_space"
  by (rule ext) simp

lemma star_greedy_skip:
  assumes "\<And>c r. P c \<Longrightarrow> f (c # r) = []"
  shows "concat (map f (star_greedy P s)) = f (dropWhile P s)"
  by (induction s) (simp_all add: assms)

lemma ms_colon_then:
  "ms (Seq (Lit 58) X) (g, v) = (case v of [] \<Rightarrow> [] | c # r \<Rightarrow> if c = 58 then ms X (g, r) else [])"
  by (cases v) simp_all

lemma ms_colon:
  "ms (Lit 58) (g, v) = (case v of [] \<Rightarrow> [] | c # r \<Rightarrow> if c = 58 then [(g, r)] else [])"
  by (cases v) simp_all

lemma ms_star_colon:
  "ms (Seq (StarG Space) (Seq (Lit 58) X)) (g, s) =
     (case dropWhile is_space s of [] \<Rightarrow> [] | c # r \<Rightarrow> if c = 58 then ms X (g, r) else [])"
proof -
  let ?f = "\<lambda>s. ms (Seq (Lit 58) X) (g, s)"
  have "ms (Seq (StarG Space) (Seq (Lit 58) X)) (g, s) = concat (map ?f (star_greedy is_space s))"
    by (simp add: comp_def in_cls_Space)
  also have "\<dots> = ?f (dropWhile is_space s)"
    by (rule star_greedy_skip) (auto simp: is_space_def)
  also have "\<dots> = (case dropWhile is_space s of [] \<Rightarrow> [] | c # r \<Rightarrow> if c = 58 then ms X (g, r) else [])"
    by (rule ms_colon_then)
  finally show ?thesis .
qed

lemma ms_star_colon_end:
  "ms (Seq (StarG Space) (Lit 58)) (g, s) =
     (case dropWhile is_space s of [] \<Rightarrow> [] | c # r \<Rightarrow> if c = 58 then [(g, r)] else [])"
proof -
  let ?f = "\<lambda>s. ms (Lit 58) (g, s)"
  have "ms (Seq (StarG Space) (Lit 58)) (g, s) = concat (map ?f (star_greedy is_space s))"
    by (simp add: comp_def in_cls_Space)
  also have "\<dots> = ?f (dropWhile is_space s)"
    by (rule star_greedy_skip) (auto simp: is_space_def)
  also have "\<dots> = (case dropWhile is_space s of [] \<Rightarrow> [] | c # r \<Rightarrow> if c = 58 then [(g, r)] else [])"
    by (rule ms_colon)
  finally show ?thesis .
qed

lemma ms_Seq_labels:
  "ms (Seq (Alt (word a) (word b)) Y) (g, s) =
     (if ci_prefix a s then ms Y (g, drop (length a) s) else [])
     @ (if ci_prefix b s then ms Y (g, drop (length b) s) else [])"
  by (simp add: ms_word)

lemma ms_label_colon:
  assumes "\<not> (ci_prefix a s \<and> ci_prefix b s)"
  shows "ms (Seq (Alt (word a) (word b)) (Seq (StarG Space) (Seq (Lit 58) X))) (g, s) =
     (case label_colon [a, b] s of None \<Rightarrow> [] | Some u \<Rightarrow> ms X (g, u))"
  unfolding ms_Seq_labels ms_star_colon using assms
  by (cases "dropWhile is_space (drop (length a) s)"; cases "dropWhile is_space (drop (length b) s)")
     (auto simp del: dropWhile_eq_Nil_conv)

lemma ms_label_colon_end:
  assumes "\<not> (ci_prefix a s \<and> ci_prefix b s)"
  shows "ms (Seq (Alt (word a) (word b)) (Seq (StarG Space) (Lit 58))) (g, s) =
     (case label_colon [a, b] s of None \<Rightarrow> [] | Some u \<Rightarrow> [(g, u)])"
  unfolding ms_Seq_labels ms_star_colon_end using assms
  by (cases "dropWhile is_space (drop (length a) s)"; cases "dropWhile is_space (drop (length b) s)")
     (auto simp del: dropWhile_eq_Nil_conv)

lemma roots_labels_apart: "\<not> (ci_prefix korni s \<and> ci_prefix roots_en s)"
  by (cases s) (auto simp: korni_def roots_en_def ci_match_def ignorecase_fixes_def)

lemma suffixes_labels_apart: "\<not> (ci_prefix suffiksy s \<and> ci_prefix suffixes_en s)"
  by (cases s) (auto simp: suffiksy_def suffixes_en_def ci_match_def ignorecase_fixes_def)

lemma roots_rx_split:
  "roots_rx = Seq (Alt (word korni) (word roots_en)) (Seq (StarG Space) (Seq (Lit 58) roots_tail))"
  by (simp add: roots_rx_def roots_tail_def roots_ahead_def)

lemma ms_roots_rx:
  "ms roots_rx (g, s) =
     (case label_colon roots_labels s of None \<Rightarrow> [] | Some u \<Rightarrow> ms roots_tail (g, u))"
  unfolding roots_rx_split roots_labels_def
  by (rule ms_label_colon) (rule roots_labels_apart)

lemma label_at_Cons_space:
  "plain_label a \<Longrightarrow> is_space c \<Longrightarrow> \<not> ci_prefix a (c # r)"
  unfolding plain_label_def by (cases a) auto

lemma ms_suffix_label_space:
  assumes "is_space c"
  shows "ms (Seq (Alt (word suffiksy) (word suffixes_en)) Y) (g, c # r) = []"
  unfolding ms_Seq_labels
  using label_at_Cons_space[OF plain_labels(3) assms] label_at_Cons_space[OF plain_labels(4) assms]
  by simp

lemma ms_star_then:
  "ms (Seq (StarG Space) Y) (g, s) = concat (map (\<lambda>v. ms Y (g, v)) (star_greedy is_space s))"
  by (simp add: comp_def in_cls_Space)

lemma concat_map_if: "concat (map (\<lambda>r. if P r then [h r] else []) xs) = map h (filter P xs)"
  by (induction xs) auto

lemma ms_roots_ahead:
  "ms roots_ahead (g, s) = (if segment_end s then [(g, s)] else [])"
proof -
  let ?Y = "Seq (Alt (word suffiksy) (word suffixes_en)) (Seq (StarG Space) (Lit 58))"
  let ?f = "\<lambda>s. ms ?Y (g, s)"
  have "ms (Seq (StarG Space) ?Y) (g, s) = concat (map ?f (star_greedy is_space s))"
    by (rule ms_star_then)
  also have "\<dots> = ?f (dropWhile is_space s)"
    by (rule star_greedy_skip) (rule ms_suffix_label_space)
  also have "\<dots> = (case label_colon suffixes_labels (dropWhile is_space s) of
                      None \<Rightarrow> [] | Some u \<Rightarrow> [(g, u)])"
    unfolding suffixes_labels_def by (rule ms_label_colon_end) (rule suffixes_labels_apart)
  finally have a: "ms (Seq (StarG Space) ?Y) (g, s) = [] \<longleftrightarrow>
      label_colon suffixes_labels (dropWhile is_space s) = None"
    by (simp split: option.splits)
  have "ms roots_ahead (g, s) =
      (if ms (Seq (StarG Space) ?Y) (g, s) @ ms Eol (g, s) = [] then [] else [(g, s)])"
    by (simp add: roots_ahead_def del: ms.simps(3))
  also have "\<dots> = (if segment_end s then [(g, s)] else [])"
    unfolding segment_end_def using a by auto
  finally show ?thesis .
qed

lemma ms_capture:
  "ms (Seq (Group (PlusL NotColon)) roots_ahead) (g, v) =
     map (\<lambda>r. (Some (take (length v - length r) v), r))
       (filter segment_end (plus_lazy (\<lambda>c. c \<noteq> 58) v))"
proof -
  have cls: "in_cls NotColon = (\<lambda>c. c \<noteq> 58)" by (rule ext) simp
  have "ms (Seq (Group (PlusL NotColon)) roots_ahead) (g, v) =
      concat (map (\<lambda>r. ms roots_ahead (Some (take (length v - length r) v), r))
        (plus_lazy (\<lambda>c. c \<noteq> 58) v))"
    by (simp add: comp_def cls)
  also have "\<dots> = concat (map (\<lambda>r. if segment_end r then [(Some (take (length v - length r) v), r)] else [])
        (plus_lazy (\<lambda>c. c \<noteq> 58) v))"
    by (simp only: ms_roots_ahead)
  also have "\<dots> = map (\<lambda>r. (Some (take (length v - length r) v), r))
       (filter segment_end (plus_lazy (\<lambda>c. c \<noteq> 58) v))"
    by (rule concat_map_if)
  finally show ?thesis .
qed

lemma ms_roots_tail:
  "ms roots_tail (g, u) =
     concat (map (\<lambda>v. ms (Seq (Group (PlusL NotColon)) roots_ahead) (g, v)) (star_greedy is_space u))"
  unfolding roots_tail_def by (rule ms_star_then)

section \<open>Lazy capture and greedy skipping\<close>

lemma plus_lazy_elem:
  "r \<in> set (plus_lazy P v) \<Longrightarrow> \<exists>g. g \<noteq> [] \<and> v = g @ r \<and> (\<forall>c \<in> set g. P c)"
proof (induction v)
  case Nil
  then show ?case by simp
next
  case (Cons a v)
  show ?case
  proof (cases "P a")
    case False
    with Cons.prems show ?thesis by simp
  next
    case True
    with Cons.prems have "r = v \<or> r \<in> set (plus_lazy P v)" by simp
    then show ?thesis
    proof
      assume "r = v"
      then have "[a] \<noteq> [] \<and> a # v = [a] @ r \<and> (\<forall>c \<in> set [a]. P c)" using True by simp
      then show ?thesis by blast
    next
      assume "r \<in> set (plus_lazy P v)"
      then obtain g where g: "g \<noteq> []" "v = g @ r" "\<forall>c \<in> set g. P c" using Cons.IH by blast
      then have "a # g \<noteq> [] \<and> a # v = (a # g) @ r \<and> (\<forall>c \<in> set (a # g). P c)" using True by simp
      then show ?thesis by blast
    qed
  qed
qed

lemma lazy_none:
  assumes "\<And>g1 g2. v = g1 @ g2 \<Longrightarrow> g1 \<noteq> [] \<Longrightarrow> \<forall>c \<in> set g1. P c \<Longrightarrow> \<not> Q g2"
  shows "filter Q (plus_lazy P v) = []"
proof -
  have "\<not> Q r" if "r \<in> set (plus_lazy P v)" for r
  proof -
    from plus_lazy_elem[OF that] obtain g where "v = g @ r" "g \<noteq> []" "\<forall>c \<in> set g. P c"
      by blast
    then show ?thesis by (rule assms)
  qed
  then show ?thesis by (simp add: filter_empty_conv)
qed

lemma lazy_first:
  assumes "g \<noteq> []" and "\<forall>c \<in> set g. P c" and "Q r"
    and "\<And>g1 g2. g = g1 @ g2 \<Longrightarrow> g1 \<noteq> [] \<Longrightarrow> g2 \<noteq> [] \<Longrightarrow> \<not> Q (g2 @ r)"
  shows "\<exists>rest. filter Q (plus_lazy P (g @ r)) = r # rest"
  using assms
proof (induction g)
  case Nil
  then show ?case by simp
next
  case (Cons a g)
  from Cons.prems(2) have a: "P a" by simp
  show ?case
  proof (cases "g = []")
    case True
    with a Cons.prems(3) show ?thesis by simp
  next
    case False
    have nq: "\<not> Q (g @ r)" using Cons.prems(4)[of "[a]" g] False by simp
    have "\<exists>rest. filter Q (plus_lazy P (g @ r)) = r # rest"
    proof (rule Cons.IH[OF False _ Cons.prems(3)])
      show "\<forall>c \<in> set g. P c" using Cons.prems(2) by simp
    next
      fix g1 g2
      assume "g = g1 @ g2" "g1 \<noteq> []" "g2 \<noteq> []"
      then show "\<not> Q (g2 @ r)" using Cons.prems(4)[of "a # g1" g2] by simp
    qed
    with a nq show ?thesis by simp
  qed
qed

lemma star_greedy_stop: "v = [] \<or> \<not> P (hd v) \<Longrightarrow> star_greedy P v = [v]"
  by (cases v) auto

lemma star_greedy_first:
  assumes "\<forall>c \<in> set ws. P c" and "v = [] \<or> \<not> P (hd v)" and "f v \<noteq> []"
  shows "concat (map f (star_greedy P (ws @ v))) \<noteq> []
     \<and> hd (concat (map f (star_greedy P (ws @ v)))) = hd (f v)"
  using assms(1)
proof (induction ws)
  case Nil
  then show ?case using assms(2,3) by (simp add: star_greedy_stop)
next
  case (Cons w ws)
  then show ?case by simp
qed

lemma star_greedy_second:
  assumes "\<forall>c \<in> set ws. P c" and "P b" and "v = [] \<or> \<not> P (hd v)"
    and "f v = []" and "f (b # v) \<noteq> []"
  shows "concat (map f (star_greedy P (ws @ b # v))) \<noteq> []
     \<and> hd (concat (map f (star_greedy P (ws @ b # v)))) = hd (f (b # v))"
  using assms(1)
proof (induction ws)
  case Nil
  then show ?case using assms(2-5) by (simp add: star_greedy_stop)
next
  case (Cons w ws)
  then show ?case by simp
qed

section \<open>The text up to the next label\<close>

lemma upto_label_split:
  "\<exists>rest. u = upto_label L u @ rest \<and> (rest = [] \<or> label_colon L rest \<noteq> None)"
proof (induction u)
  case Nil
  then show ?case by simp
next
  case (Cons c u)
  show ?case
  proof (cases "label_colon L (c # u) = None")
    case True
    with Cons show ?thesis by auto
  next
    case False
    then have "c # u = upto_label L (c # u) @ (c # u) \<and> label_colon L (c # u) \<noteq> None" by simp
    then show ?thesis by blast
  qed
qed

lemma upto_label_inside:
  "upto_label L u = a @ b \<Longrightarrow> b \<noteq> [] \<Longrightarrow> u = a @ b @ rest \<Longrightarrow> label_colon L (b @ rest) = None"
proof (induction u arbitrary: a)
  case Nil
  then show ?case by simp
next
  case (Cons c u)
  from Cons.prems(1,2) have n: "label_colon L (c # u) = None"
    by (auto split: if_splits)
  with Cons.prems(1) have up: "c # upto_label L u = a @ b" by simp
  show ?case
  proof (cases a)
    case Nil
    with Cons.prems(3) n show ?thesis by simp
  next
    case (Cons c' a')
    with up Cons.prems(3) have "upto_label L u = a' @ b" "u = a' @ b @ rest" by simp_all
    then show ?thesis using Cons.IH[of a'] Cons.prems(2) by blast
  qed
qed

section \<open>Labels in the text\<close>

lemma label_colon_Some:
  "label_colon L s = Some r \<Longrightarrow>
   \<exists>l \<in> set L. ci_prefix l s \<and> dropWhile is_space (drop (length l) s) = 58 # r"
proof (induction L)
  case Nil
  then show ?case by simp
next
  case (Cons l L)
  show ?case
  proof (cases "ci_prefix l s \<and> dropWhile is_space (drop (length l) s) = 58 # r")
    case True
    then show ?thesis by simp
  next
    case False
    with Cons.prems have "label_colon L s = Some r"
      by (auto split: if_splits list.splits)
    with Cons.IH show ?thesis by auto
  qed
qed

lemma label_colon_no_label: "\<forall>l \<in> set L. \<not> ci_prefix l s \<Longrightarrow> label_colon L s = None"
  by (induction L) auto

lemma ci_prefix_take:
  "\<forall>p \<in> set l. \<forall>c. ci_match p c \<longrightarrow> Q c \<Longrightarrow> ci_prefix l s \<Longrightarrow>
   length l \<le> length s \<and> (\<forall>c \<in> set (take (length l) s). Q c)"
  by (induction l s rule: ci_prefix.induct) auto

lemma ci_prefix_plain:
  assumes "plain_label l" and "ci_prefix l s"
  shows "length l \<le> length s \<and> (\<forall>c \<in> set (take (length l) s). \<not> is_space c \<and> c \<noteq> 58)"
  using assms(1) ci_prefix_take[OF _ assms(2), of "\<lambda>c. \<not> is_space c \<and> c \<noteq> 58"]
  unfolding plain_label_def by blast

lemma plain_label_colon: "plain_label l \<Longrightarrow> \<not> ci_prefix l (58 # r)"
proof (cases l)
  case Nil
  assume "plain_label l"
  with Nil show ?thesis by (simp add: plain_label_def)
next
  case (Cons p ps)
  assume pl: "plain_label l"
  show ?thesis
  proof
    assume "ci_prefix l (58 # r)"
    with Cons have "ci_match p 58" by simp
    moreover from pl Cons have "\<forall>c. ci_match p c \<longrightarrow> c \<noteq> 58" by (simp add: plain_label_def)
    ultimately show False by blast
  qed
qed

lemma label_colon_shape:
  assumes "\<forall>l \<in> set L. plain_label l \<and> length l = n" and "label_colon L s = Some r"
  shows "\<exists>a sp. s = a @ sp @ 58 # r \<and> length a = n \<and> a \<noteq> []
     \<and> (\<forall>c \<in> set a. \<not> is_space c \<and> c \<noteq> 58) \<and> (\<forall>c \<in> set sp. is_space c)"
proof -
  from label_colon_Some[OF assms(2)] obtain l where l: "l \<in> set L" "ci_prefix l s"
      "dropWhile is_space (drop (length l) s) = 58 # r" by blast
  with assms(1) have pl: "plain_label l" and n: "length l = n" by auto
  from ci_prefix_plain[OF pl l(2)] have len: "n \<le> length s"
      and pa: "\<forall>c \<in> set (take n s). \<not> is_space c \<and> c \<noteq> 58" using n by auto
  let ?a = "take n s" and ?sp = "takeWhile is_space (drop n s)"
  have "drop n s = ?sp @ dropWhile is_space (drop n s)" by simp
  with l(3) n have d: "drop n s = ?sp @ 58 # r" by simp
  have "s = ?a @ drop n s" by simp
  with d have "s = ?a @ ?sp @ 58 # r" by simp
  moreover have "length ?a = n" using len by simp
  moreover have "?a \<noteq> []" using pl n len unfolding plain_label_def by (cases s) auto
  moreover have "\<forall>c \<in> set ?sp. is_space c" by (auto dest: set_takeWhileD)
  ultimately show ?thesis using pa by blast
qed

lemma label_colon_hd:
  assumes "\<forall>l \<in> set L. plain_label l \<and> length l = n" and "label_colon L s \<noteq> None"
  shows "s \<noteq> [] \<and> \<not> is_space (hd s)"
proof -
  from assms(2) obtain r where "label_colon L s = Some r" by auto
  from label_colon_shape[OF assms(1) this] obtain a sp where
    "s = a @ sp @ 58 # r" "a \<noteq> []" "\<forall>c \<in> set a. \<not> is_space c \<and> c \<noteq> 58" by blast
  then show ?thesis by (cases a) auto
qed

lemma no_end_inside_label:
  assumes L: "\<forall>l \<in> set L. plain_label l \<and> length l = n"
    and lc: "label_colon L rest = Some r2"
    and sp: "rest = g1 @ g2" "g1 \<noteq> []" "58 \<notin> set g1"
  shows "label_colon L (dropWhile is_space g2) = None \<and> g2 \<noteq> [] \<and> g2 \<noteq> [10]"
proof -
  from label_colon_shape[OF L lc] obtain a sp where sh: "rest = a @ sp @ 58 # r2" "length a = n"
      "a \<noteq> []" "\<forall>c \<in> set a. \<not> is_space c \<and> c \<noteq> 58" "\<forall>c \<in> set sp. is_space c" by blast
  from sh(1) sp(1) have "g1 @ g2 = (a @ sp) @ 58 # r2" by simp
  then have "\<exists>w. g1 = (a @ sp) @ w \<and> w @ g2 = 58 # r2 \<or> g1 @ w = a @ sp \<and> g2 = w @ 58 # r2"
    by (simp only: append_eq_append_conv2)
  then obtain w where w: "g1 = (a @ sp) @ w \<and> w @ g2 = 58 # r2 \<or> g1 @ w = a @ sp \<and> g2 = w @ 58 # r2"
    by blast
  have "\<exists>t. a @ sp = g1 @ t \<and> g2 = t @ 58 # r2"
  proof (cases "g1 @ w = a @ sp \<and> g2 = w @ 58 # r2")
    case True
    then have "a @ sp = g1 @ w \<and> g2 = w @ 58 # r2" by simp
    then show ?thesis by blast
  next
    case False
    with w have w2: "g1 = (a @ sp) @ w" "w @ g2 = 58 # r2" by auto
    have "w = []"
    proof (cases w)
      case Nil then show ?thesis .
    next
      case (Cons x xs)
      with w2(2) have "x = 58" by simp
      with Cons w2(1) sp(3) show ?thesis by simp
    qed
    with w2 have "a @ sp = g1 @ [] \<and> g2 = [] @ 58 # r2" by simp
    then show ?thesis by blast
  qed
  then obtain t where t: "a @ sp = g1 @ t" "g2 = t @ 58 # r2" by blast
  have g2: "g2 \<noteq> []" "g2 \<noteq> [10]" using t(2) by (auto simp: append_eq_Cons_conv)
  have "label_colon L (dropWhile is_space g2) = None"
  proof (cases "length a \<le> length g1")
    case True
    then have "\<forall>c \<in> set t. is_space c"
      using t(1) sh(5) by (auto simp: append_eq_append_conv2 append_eq_conv_conj)
    then have "dropWhile is_space g2 = 58 # r2"
      unfolding t(2) by (simp add: dropWhile_append2 is_space_def)
    moreover have "\<not> ci_prefix l (58 # r2)" if "l \<in> set L" for l
      using L that plain_label_colon by blast
    ultimately show ?thesis by (simp add: label_colon_no_label)
  next
    case False
    then have lt: "length g1 < length a" by simp
    with t(1) obtain a2 where a2: "a = g1 @ a2" "t = a2 @ sp" "a2 \<noteq> []"
      by (auto simp: append_eq_append_conv2)
    have la2: "length a2 < n" using a2(1) sp(2) sh(2) by (cases g1) auto
    have hd2: "\<not> is_space (hd a2)" using a2(1,3) sh(4) by (cases a2) auto
    have dw: "dropWhile is_space g2 = a2 @ sp @ 58 # r2"
      unfolding t(2) a2(2) using a2(3) hd2 by (cases a2) auto
    have "\<not> ci_prefix l (a2 @ sp @ 58 # r2)" if "l \<in> set L" for l
    proof
      assume cp: "ci_prefix l (a2 @ sp @ 58 # r2)"
      from L that have pl: "plain_label l" and ln: "length l = n" by auto
      from ci_prefix_plain[OF pl cp] ln
      have pa: "\<forall>c \<in> set (take n (a2 @ sp @ 58 # r2)). \<not> is_space c \<and> c \<noteq> 58" by simp
      have "hd (sp @ 58 # r2) \<in> set (take n (a2 @ sp @ 58 # r2))"
        using la2 by (cases "sp @ 58 # r2") (auto simp: take_Cons')
      moreover have "is_space (hd (sp @ 58 # r2)) \<or> hd (sp @ 58 # r2) = 58"
        using sh(5) by (cases sp) auto
      ultimately show False using pa by blast
    qed
    then show ?thesis unfolding dw by (simp add: label_colon_no_label)
  qed
  with g2 show ?thesis by simp
qed

section \<open>The captured roots segment\<close>

lemma strip_decompose:
  "\<exists>ws trail. x = ws @ py_strip x @ trail
      \<and> (\<forall>c \<in> set ws. is_space c) \<and> (\<forall>c \<in> set trail. is_space c)"
proof -
  let ?y = "dropWhile is_space x"
  let ?ws = "takeWhile is_space x"
  let ?trail = "rev (takeWhile is_space (rev ?y))"
  have "rev (takeWhile is_space (rev ?y) @ dropWhile is_space (rev ?y)) = rev (rev ?y)"
    by (simp only: takeWhile_dropWhile_id)
  then have "rev (dropWhile is_space (rev ?y)) @ ?trail = ?y"
    by (simp only: rev_append rev_rev_ident)
  then have "?y = py_strip x @ ?trail" by (simp only: py_strip_def)
  moreover have "x = ?ws @ ?y" by simp
  ultimately have "x = ?ws @ py_strip x @ ?trail" by simp
  moreover have "\<forall>c \<in> set ?ws. is_space c" by (auto dest: set_takeWhileD)
  moreover have "\<forall>c \<in> set ?trail. is_space c" by (auto dest: set_takeWhileD)
  ultimately show ?thesis by blast
qed

lemma suffixes_labels_8: "\<forall>l \<in> set suffixes_labels. plain_label l \<and> length l = 8"
  using plain_labels by (simp add: suffixes_labels_def) (simp add: suffiksy_def suffixes_en_def)

lemma segment_end_at_label:
  assumes "\<forall>c \<in> set trail. is_space c" and "label_colon suffixes_labels rest \<noteq> None"
  shows "segment_end (trail @ rest)"
proof -
  from label_colon_hd[OF suffixes_labels_8 assms(2)] have "rest \<noteq> []" "\<not> is_space (hd rest)" by auto
  then have "dropWhile is_space rest = rest" by (cases rest) auto
  with assms(1) have "dropWhile is_space (trail @ rest) = rest" by (simp add: dropWhile_append2)
  with assms(2) show ?thesis by (simp add: segment_end_def)
qed

lemma capture_first:
  assumes "filter segment_end (plus_lazy (\<lambda>c. c \<noteq> 58) (g @ r)) = r # rest"
  shows "\<exists>more. ms (Seq (Group (PlusL NotColon)) roots_ahead) (g0, g @ r) = (Some g, r) # more"
  unfolding ms_capture assms by simp

lemma roots_tail_first:
  assumes seg: "seg = upto_label suffixes_labels u" "seg \<noteq> []" "58 \<notin> set seg"
    and lst: "u = [] \<or> \<not> is_space (last u)"
  shows "\<exists>g r more. ms roots_tail (g0, u) = (Some g, r) # more \<and> py_strip g = py_strip seg"
proof -
  let ?f = "\<lambda>v. ms (Seq (Group (PlusL NotColon)) roots_ahead) (g0, v)"
  let ?L = suffixes_labels
  from upto_label_split[of u ?L] seg(1) obtain rest where
    u: "u = seg @ rest" and rest: "rest = [] \<or> label_colon ?L rest \<noteq> None" by blast
  from strip_decompose[of seg] obtain ws trail where
    dec: "seg = ws @ py_strip seg @ trail" and ws: "\<forall>c \<in> set ws. is_space c"
    and trail: "\<forall>c \<in> set trail. is_space c" by blast
  have rest_hd: "rest = [] \<or> \<not> is_space (hd rest)"
    using rest label_colon_hd[OF suffixes_labels_8] by blast
  show ?thesis
  proof (cases "py_strip seg = []")
    case False
    let ?core = "py_strip seg"
    let ?r = "trail @ rest"
    have core_hd: "\<not> is_space (hd ?core)" and core_last: "\<not> is_space (last ?core)"
      using False strip_hd strip_last by blast+
    have colon: "\<forall>c \<in> set ?core. c \<noteq> 58"
    proof
      fix c assume "c \<in> set ?core"
      then have "c \<in> set seg" by (subst dec) simp
      with seg(3) show "c \<noteq> 58" by blast
    qed
    have e: "segment_end ?r"
    proof (cases "rest = []")
      case True
      have "trail = []"
      proof (rule ccontr)
        assume ne: "trail \<noteq> []"
        have "u = (ws @ py_strip seg) @ trail" using u dec True by simp
        then have "last u = last trail" using ne by simp
        moreover have "is_space (last trail)" using ne trail by simp
        moreover have "u \<noteq> []" using u seg(2) by simp
        ultimately show False using lst by simp
      qed
      with True show ?thesis by (simp add: segment_end_def)
    next
      case False
      with rest show ?thesis by (intro segment_end_at_label trail) simp
    qed
    have minimal: "\<not> segment_end (g2 @ ?r)" if sp: "?core = g1 @ g2" "g1 \<noteq> []" "g2 \<noteq> []" for g1 g2
    proof
      assume se: "segment_end (g2 @ ?r)"
      have l2: "\<not> is_space (last g2)" using core_last sp(1,3) by simp
      have n10: "g2 @ ?r \<noteq> [10]"
      proof
        assume "g2 @ ?r = [10]"
        with sp(3) have "g2 = [10]" by (cases g2) auto
        with l2 show False by (simp add: is_space_def)
      qed
      let ?g2' = "dropWhile is_space g2"
      have "last g2 \<in> set g2" using sp(3) by simp
      with l2 have g2': "?g2' \<noteq> []" by (auto simp: dropWhile_eq_Nil_conv)
      have "last g2 \<in> set g2" using sp(3) by simp
      then have dw: "dropWhile is_space (g2 @ ?r) = ?g2' @ ?r"
        using l2 by (rule dropWhile_append1)
      from se n10 sp(3) have "label_colon ?L (?g2' @ ?r) \<noteq> None"
        by (simp add: segment_end_def dw)
      moreover have "label_colon ?L ((?g2' @ trail) @ rest) = None"
      proof (rule upto_label_inside[of ?L u "ws @ g1 @ takeWhile is_space g2"])
        have "g2 = takeWhile is_space g2 @ ?g2'" by simp
        then have "?core = g1 @ takeWhile is_space g2 @ ?g2'" using sp(1) by simp
        then have s2: "seg = (ws @ g1 @ takeWhile is_space g2) @ (?g2' @ trail)"
          using dec by simp
        then show "upto_label ?L u = (ws @ g1 @ takeWhile is_space g2) @ (?g2' @ trail)"
          using seg(1) by simp
        show "?g2' @ trail \<noteq> []" using g2' by simp
        show "u = (ws @ g1 @ takeWhile is_space g2) @ (?g2' @ trail) @ rest"
          using u s2 by simp
      qed
      ultimately show False by simp
    qed
    have "\<exists>more. filter segment_end (plus_lazy (\<lambda>c. c \<noteq> 58) (?core @ ?r)) = ?r # more"
    proof (rule lazy_first[of ?core "\<lambda>c. c \<noteq> 58" segment_end ?r, OF False colon e])
      fix g1 g2
      assume "?core = g1 @ g2" "g1 \<noteq> []" "g2 \<noteq> []"
      then show "\<not> segment_end (g2 @ ?r)" by (rule minimal)
    qed
    then obtain more where "filter segment_end (plus_lazy (\<lambda>c. c \<noteq> 58) (?core @ ?r)) = ?r # more"
      by blast
    from capture_first[OF this, of g0] obtain more' where
      f: "?f (?core @ ?r) = (Some ?core, ?r) # more'" by blast
    have v: "?core @ ?r = [] \<or> \<not> is_space (hd (?core @ ?r))" using False core_hd by simp
    have "u = ws @ (?core @ ?r)" using u dec by simp
    moreover have fne: "?f (?core @ ?r) \<noteq> []" unfolding f by simp
    moreover have fhd: "hd (?f (?core @ ?r)) = (Some ?core, ?r)" unfolding f by simp
    moreover have "concat (map ?f (star_greedy is_space (ws @ (?core @ ?r)))) \<noteq> []
        \<and> hd (concat (map ?f (star_greedy is_space (ws @ (?core @ ?r))))) = hd (?f (?core @ ?r))"
      using ws v fne by (rule star_greedy_first)
    ultimately have "ms roots_tail (g0, u) \<noteq> [] \<and> hd (ms roots_tail (g0, u)) = (Some ?core, ?r)"
      unfolding ms_roots_tail by (simp del: ms.simps)
    then have "\<exists>more. ms roots_tail (g0, u) = (Some ?core, ?r) # more"
      by (cases "ms roots_tail (g0, u)") auto
    then obtain more where "ms roots_tail (g0, u) = (Some ?core, ?r) # more" by blast
    moreover have "py_strip ?core = py_strip seg" by (rule strip_idem)
    ultimately show ?thesis by blast
  next
    case True
    with dec have "seg = ws @ trail" by simp
    then have "set seg = set ws \<union> set trail" by simp
    with ws trail have sp_seg: "\<forall>c \<in> set seg. is_space c" by blast
    from seg(2) obtain ws' b where snoc: "seg = ws' @ [b]" by (cases seg rule: rev_cases) auto
    with sp_seg have b: "is_space b" and ws': "\<forall>c \<in> set ws'. is_space c" by auto
    have b58: "b \<noteq> 58" using seg(3) snoc by auto
    have rest_ne: "rest \<noteq> []"
    proof
      assume "rest = []"
      with u snoc have "last u = b" "u \<noteq> []" by auto
      with lst b show False by simp
    qed
    with rest obtain r2 where lc: "label_colon ?L rest = Some r2" by auto
    have e: "segment_end rest"
      using segment_end_at_label[of "[]" rest] lc by simp
    have none: "?f rest = []"
    proof -
      have "filter segment_end (plus_lazy (\<lambda>c. c \<noteq> 58) rest) = []"
      proof (rule lazy_none)
        fix g1 g2
        assume "rest = g1 @ g2" "g1 \<noteq> []" "\<forall>c \<in> set g1. c \<noteq> 58"
        then have "label_colon ?L (dropWhile is_space g2) = None \<and> g2 \<noteq> [] \<and> g2 \<noteq> [10]"
          by (intro no_end_inside_label[OF suffixes_labels_8 lc]) auto
        then show "\<not> segment_end g2" by (simp add: segment_end_def)
      qed
      then show ?thesis unfolding ms_capture by simp
    qed
    have "\<exists>more. filter segment_end (plus_lazy (\<lambda>c. c \<noteq> 58) ([b] @ rest)) = rest # more"
      using b58 e by simp
    then obtain more where "filter segment_end (plus_lazy (\<lambda>c. c \<noteq> 58) ([b] @ rest)) = rest # more"
      by blast
    from capture_first[OF this, of g0] obtain more' where
      f: "?f (b # rest) = (Some [b], rest) # more'" by auto
    have "u = ws' @ b # rest" using u snoc by simp
    moreover have fne: "?f (b # rest) \<noteq> []" unfolding f by simp
    moreover have fhd: "hd (?f (b # rest)) = (Some [b], rest)" unfolding f by simp
    moreover have "concat (map ?f (star_greedy is_space (ws' @ b # rest))) \<noteq> []
        \<and> hd (concat (map ?f (star_greedy is_space (ws' @ b # rest)))) = hd (?f (b # rest))"
      using ws' b rest_hd none fne by (rule star_greedy_second)
    ultimately have "ms roots_tail (g0, u) \<noteq> [] \<and> hd (ms roots_tail (g0, u)) = (Some [b], rest)"
      unfolding ms_roots_tail by (simp del: ms.simps)
    then have "\<exists>more. ms roots_tail (g0, u) = (Some [b], rest) # more"
      by (cases "ms roots_tail (g0, u)") auto
    then obtain more where "ms roots_tail (g0, u) = (Some [b], rest) # more" by blast
    moreover have "py_strip [b] = py_strip seg" using b True by (simp add: py_strip_def)
    ultimately show ?thesis by blast
  qed
qed

section \<open>Searching for the roots label\<close>

lemma label_colon_suffix: "label_colon L s = Some r \<Longrightarrow> \<exists>p. s = p @ r"
proof -
  assume "label_colon L s = Some r"
  from label_colon_Some[OF this] obtain l where "l \<in> set L" "ci_prefix l s"
    and d: "dropWhile is_space (drop (length l) s) = 58 # r" by blast
  have "s = take (length l) s @ drop (length l) s" by simp
  also have "drop (length l) s = takeWhile is_space (drop (length l) s) @ 58 # r"
    using d takeWhile_dropWhile_id[of is_space "drop (length l) s"] by simp
  finally have "s = (take (length l) s @ takeWhile is_space (drop (length l) s) @ [58]) @ r"
    by simp
  then show ?thesis by blast
qed

lemma after_label_suffix: "after_label L t = Some u \<Longrightarrow> \<exists>p. t = p @ u"
proof (induction t)
  case Nil
  then show ?case using label_colon_suffix[of L "[]" u] by simp
next
  case (Cons c t)
  show ?case
  proof (cases "label_colon L (c # t)")
    case None
    with Cons obtain p where "t = p @ u" by auto
    then have "c # t = (c # p) @ u" by simp
    then show ?thesis by blast
  next
    case (Some r)
    with Cons.prems have "r = u" by simp
    with Some show ?thesis using label_colon_suffix by blast
  qed
qed

lemma re_search_roots_None:
  "after_label roots_labels t = None \<Longrightarrow> re_search roots_rx t = None"
proof (induction t)
  case Nil
  then show ?case by (simp add: ms_roots_rx del: ms.simps)
next
  case (Cons c t)
  then show ?case by (cases "label_colon roots_labels (c # t)") (simp_all add: ms_roots_rx del: ms.simps)
qed

lemma re_search_roots_Some:
  "after_label roots_labels t = Some u \<Longrightarrow> ms roots_tail (None, u) = m # more \<Longrightarrow>
   re_search roots_rx t = Some m"
proof (induction t)
  case Nil
  then show ?case by (simp add: ms_roots_rx del: ms.simps)
next
  case (Cons c t)
  then show ?case by (cases "label_colon roots_labels (c # t)") (simp_all add: ms_roots_rx del: ms.simps)
qed

section \<open>The end of the normalized text\<close>

lemma last_dropWhile:
  "xs \<noteq> [] \<Longrightarrow> \<not> P (last xs) \<Longrightarrow> dropWhile P xs \<noteq> [] \<and> last (dropWhile P xs) = last xs"
  by (induction xs) (auto split: if_splits)

lemma collapse_ws_last:
  "s \<noteq> [] \<Longrightarrow> \<not> is_space (last s) \<Longrightarrow> collapse_ws s \<noteq> [] \<and> last (collapse_ws s) = last s"
proof (induction s rule: collapse_ws.induct)
  case 1
  then show ?case by simp
next
  case (2 c cs)
  show ?case
  proof (cases "is_space c")
    case True
    with 2(3,4) have cs: "cs \<noteq> []" "\<not> is_space (last cs)" by (auto split: if_splits)
    from last_dropWhile[of cs is_space] cs have d: "dropWhile is_space cs \<noteq> []"
        "last (dropWhile is_space cs) = last cs" by auto
    with 2(1)[OF True] cs have "collapse_ws (dropWhile is_space cs) \<noteq> []"
        "last (collapse_ws (dropWhile is_space cs)) = last cs" by auto
    with True cs show ?thesis by simp
  next
    case False
    show ?thesis
    proof (cases "cs = []")
      case True
      with False show ?thesis by simp
    next
      case ne: False
      with 2(4) have "\<not> is_space (last cs)" by simp
      with 2(2)[OF False ne] False ne show ?thesis by simp
    qed
  qed
qed

lemma normalize_last: "normalize text = [] \<or> \<not> is_space (last (normalize text))"
proof (cases "py_strip text = []")
  case True
  then show ?thesis by (simp add: normalize_def)
next
  case False
  with strip_last[OF False] collapse_ws_last[of "py_strip text"] show ?thesis
    by (simp add: normalize_def)
qed

section \<open>Stripping before splitting\<close>

lemma py_split_ne: "py_split sep x \<noteq> []"
  by (induction x) (auto split: list.splits)

lemma py_split_lead:
  "sep \<notin> set ws \<Longrightarrow> py_split sep (ws @ x) = (ws @ hd (py_split sep x)) # tl (py_split sep x)"
proof (induction ws)
  case Nil
  then show ?case using py_split_ne[of sep x] by simp
next
  case (Cons w ws)
  then show ?case by simp
qed

lemma py_split_trail:
  "sep \<notin> set t \<Longrightarrow>
   py_split sep (x @ t) = butlast (py_split sep x) @ [last (py_split sep x) @ t]"
proof (induction x)
  case Nil
  then show ?case by (simp add: py_split_no_sep)
next
  case (Cons c x)
  show ?case
  proof (cases "c = sep")
    case True
    with Cons py_split_ne[of sep x] show ?thesis by simp
  next
    case False
    obtain w ws where p: "py_split sep x = w # ws" using py_split_ne[of sep x] by (cases "py_split sep x") auto
    with Cons False show ?thesis by (cases ws) simp_all
  qed
qed

lemma strip_lead: "\<forall>c \<in> set ws. is_space c \<Longrightarrow> py_strip (ws @ w) = py_strip w"
proof -
  assume a: "\<forall>c \<in> set ws. is_space c"
  have "dropWhile is_space (ws @ w) = dropWhile is_space w"
    by (rule dropWhile_append2) (use a in auto)
  then show ?thesis by (simp only: py_strip_def)
qed

lemma strip_all_space: "\<forall>c \<in> set w. is_space c \<Longrightarrow> py_strip w = []"
proof -
  assume "\<forall>c \<in> set w. is_space c"
  then have "dropWhile is_space w = []" by (simp only: dropWhile_eq_Nil_conv)
  then show ?thesis by (simp only: py_strip_def rev.simps dropWhile.simps)
qed

lemma strip_trail: "\<forall>c \<in> set t. is_space c \<Longrightarrow> py_strip (w @ t) = py_strip w"
proof (cases "\<forall>c \<in> set w. is_space c")
  case True
  assume "\<forall>c \<in> set t. is_space c"
  with True have "\<forall>c \<in> set (w @ t). is_space c" by auto
  then have "py_strip (w @ t) = []" by (rule strip_all_space)
  moreover have "py_strip w = []" using True by (rule strip_all_space)
  ultimately show ?thesis by simp
next
  case False
  assume t: "\<forall>c \<in> set t. is_space c"
  from False obtain x where x: "x \<in> set w" "\<not> is_space x" by blast
  then have d: "dropWhile is_space (w @ t) = dropWhile is_space w @ t"
    by (rule dropWhile_append1)
  have "dropWhile is_space (rev t @ rev (dropWhile is_space w)) = dropWhile is_space (rev (dropWhile is_space w))"
    by (rule dropWhile_append2) (use t in auto)
  then show ?thesis by (simp add: py_strip_def d)
qed

lemma not_space_44: "\<forall>c \<in> set t. is_space c \<Longrightarrow> 44 \<notin> set t"
  by (auto simp: is_space_def)

lemma strip_fields_lead:
  assumes "\<forall>c \<in> set ws. is_space c"
  shows "map py_strip (py_split 44 (ws @ x)) = map py_strip (py_split 44 x)"
proof -
  obtain w r where p: "py_split 44 x = w # r" using py_split_ne[of 44 x] by (cases "py_split 44 x") auto
  show ?thesis
    unfolding py_split_lead[OF not_space_44[OF assms]] p by (simp add: strip_lead[OF assms])
qed

lemma strip_fields_trail:
  assumes "\<forall>c \<in> set t. is_space c"
  shows "map py_strip (py_split 44 (x @ t)) = map py_strip (py_split 44 x)"
proof -
  have "map py_strip (py_split 44 (x @ t))
      = map py_strip (butlast (py_split 44 x)) @ [py_strip (last (py_split 44 x))]"
    unfolding py_split_trail[OF not_space_44[OF assms]] by (simp add: strip_trail[OF assms])
  also have "\<dots> = map py_strip (butlast (py_split 44 x) @ [last (py_split 44 x)])" by simp
  also have "\<dots> = map py_strip (py_split 44 x)" using py_split_ne[of 44 x] by simp
  finally show ?thesis .
qed

lemma tokens_alt: "tokens x = filter (\<lambda>w. w \<noteq> []) (map py_strip (py_split 44 x))"
  by (simp add: tokens_def filter_map comp_def)

lemma tokens_strip: "tokens (py_strip x) = tokens x"
proof -
  from strip_decompose[of x] obtain ws trail where
    d: "x = ws @ py_strip x @ trail" and ws: "\<forall>c \<in> set ws. is_space c"
    and tr: "\<forall>c \<in> set trail. is_space c" by blast
  have "map py_strip (py_split 44 (ws @ py_strip x @ trail)) = map py_strip (py_split 44 (py_strip x))"
    using strip_fields_lead[OF ws, of "py_strip x @ trail"] strip_fields_trail[OF tr, of "py_strip x"]
    by simp
  with d have "map py_strip (py_split 44 x) = map py_strip (py_split 44 (py_strip x))" by simp
  then show ?thesis by (simp add: tokens_alt)
qed

section \<open>The roots segment\<close>

lemma parse_side_roots_segment:
  assumes a: "after_label roots_labels (normalize text) = Some u"
    and seg: "seg = upto_label suffixes_labels u" "seg \<noteq> []" "58 \<notin> set seg"
  shows "parse_side roots_rx (normalize text) = Inr (tokens seg)"
proof -
  from after_label_suffix[OF a] obtain p where p: "normalize text = p @ u" by blast
  have lst: "u = [] \<or> \<not> is_space (last u)"
  proof (cases "u = []")
    case True
    then show ?thesis by simp
  next
    case False
    with p have "last (normalize text) = last u" "normalize text \<noteq> []" by simp_all
    with normalize_last[of "text"] show ?thesis by simp
  qed
  from roots_tail_first[OF seg lst, of None] obtain g r more where
    m: "ms roots_tail (None, u) = (Some g, r) # more" and g: "py_strip g = py_strip seg" by blast
  from re_search_roots_Some[OF a m] have "re_search roots_rx (normalize text) = Some (Some g, r)" .
  then have "parse_side roots_rx (normalize text) = Inr (tokens (py_strip g))"
    by (simp add: parse_side_def)
  then show ?thesis by (simp add: g tokens_strip)
qed

lemma parse_side_roots_none:
  "after_label roots_labels (normalize text) = None \<Longrightarrow>
   parse_side roots_rx (normalize text) = Inr []"
  by (simp add: parse_side_def re_search_roots_None)

text \<open>
  Claim C1, amended. Take the normalized text, the first roots label in it that is
  followed by a colon, and the segment from after that colon up to, and without, the
  next suffixes label followed by a colon, or up to the end of the text when there is
  none (\<open>spec_roots_segment\<close>). When this segment is not empty and holds no colon, the
  roots that \<open>parse_input\<close> returns are the entries of exactly this segment. When no
  roots label with a colon is found, and in particular when no roots label occurs in
  the text at all, the roots list is empty.
\<close>

theorem parse_input_roots_segment:
  "(spec_roots_segment text = None \<longrightarrow> (\<exists>suffixes. parse_input text = Inr ([], suffixes)))
   \<and> (\<forall>seg. spec_roots_segment text = Some seg \<longrightarrow> seg \<noteq> [] \<longrightarrow> 58 \<notin> set seg \<longrightarrow>
         (\<exists>suffixes. parse_input text = Inr (tokens seg, suffixes)))
   \<and> (\<not> label_occurs roots_labels text \<longrightarrow> (\<exists>suffixes. parse_input text = Inr ([], suffixes)))"
proof (intro conjI allI impI)
  obtain R S where RS: "parse_input text = Inr (R, S)"
      "parse_side roots_rx (normalize text) = Inr R"
    using parse_input_Inr[of "text"] by blast
  {
    assume "spec_roots_segment text = None"
    then have "after_label roots_labels (normalize text) = None"
      by (simp add: spec_roots_segment_def split: option.splits)
    from parse_side_roots_none[OF this] RS show "\<exists>suffixes. parse_input text = Inr ([], suffixes)"
      by simp
  }
  {
    fix seg
    assume s: "spec_roots_segment text = Some seg" and ne: "seg \<noteq> []" and nc: "58 \<notin> set seg"
    from s obtain u where u: "after_label roots_labels (normalize text) = Some u"
        "seg = upto_label suffixes_labels u"
      by (auto simp: spec_roots_segment_def split: option.splits)
    from parse_side_roots_segment[OF u ne nc] RS
    show "\<exists>suffixes. parse_input text = Inr (tokens seg, suffixes)" by simp
  }
  {
    assume "\<not> label_occurs roots_labels text"
    with parse_input_total_aux[of "text"]
    show "\<exists>suffixes. parse_input text = Inr ([], suffixes)" by blast
  }
qed

text \<open>The definitions unfolded to compute the segment of a concrete text.\<close>

lemmas ev_spec = spec_roots_def spec_roots_segment_def normalize_def py_strip_def tokens_def
  label_at_def roots_labels_def suffixes_labels_def korni_def roots_en_def suffiksy_def
  suffixes_en_def ci_match_def lower_cp_def ignorecase_fixes_def is_space_def

theorem parse_input_roots_segment_witness:
  "spec_roots_segment [82, 111, 111, 116, 115, 32, 58, 32, 97, 44, 32, 98, 10, 115, 117, 102, 102, 105, 120, 101, 115, 58, 32, 99]
       = Some [32, 97, 44, 32, 98, 32]
   \<and> [32, 97, 44, 32, 98, 32 :: nat] \<noteq> [] \<and> 58 \<notin> set [32, 97, 44, 32, 98, 32 :: nat]
   \<and> (\<exists>suffixes. parse_input [82, 111, 111, 116, 115, 32, 58, 32, 97, 44, 32, 98, 10, 115, 117, 102, 102, 105, 120, 101, 115, 58, 32, 99]
         = Inr ([[97], [98]], suffixes))
   \<and> spec_roots_segment [115, 117, 102, 102, 105, 120, 101, 115, 58, 32, 99] = None
   \<and> \<not> label_occurs roots_labels [115, 117, 102, 102, 105, 120, 101, 115, 58, 32, 99]
   \<and> (\<exists>suffixes. parse_input [115, 117, 102, 102, 105, 120, 101, 115, 58, 32, 99] = Inr ([], suffixes))"
proof -
  have s1: "spec_roots_segment [82, 111, 111, 116, 115, 32, 58, 32, 97, 44, 32, 98, 10, 115, 117, 102, 102, 105, 120, 101, 115, 58, 32, 99]
       = Some [32, 97, 44, 32, 98, 32]"
    by (simp add: ev_spec)
  have t1: "tokens [32, 97, 44, 32, 98, 32] = [[97], [98]]"
    by (simp add: tokens_def py_strip_def is_space_def)
  have s2: "spec_roots_segment [115, 117, 102, 102, 105, 120, 101, 115, 58, 32, 99] = None"
    by (simp add: ev_spec)
  have l2: "\<not> label_occurs roots_labels [115, 117, 102, 102, 105, 120, 101, 115, 58, 32, 99]"
    by (simp add: ev_spec)
  from parse_input_roots_segment[of "[82, 111, 111, 116, 115, 32, 58, 32, 97, 44, 32, 98, 10, 115, 117, 102, 102, 105, 120, 101, 115, 58, 32, 99]"]
    parse_input_roots_segment[of "[115, 117, 102, 102, 105, 120, 101, 115, 58, 32, 99]"]
    s1 s2 l2 t1
  show ?thesis by auto
qed

text \<open>
  Claim C1, as stated, has no condition on the segment. For the text \<open>roots: a:b\<close> the
  text after the colon of the label, up to the end, is \<open> a:b\<close>, with the one entry
  \<open>a:b\<close>; the group of the pattern takes no colon, nothing matches, and
  \<open>parse_input\<close> returns no root.
\<close>

theorem parse_input_roots_segment_counterexample:
  "spec_roots_segment [114, 111, 111, 116, 115, 58, 32, 97, 58, 98] = Some [32, 97, 58, 98]
   \<and> spec_roots [114, 111, 111, 116, 115, 58, 32, 97, 58, 98] = [[97, 58, 98]]
   \<and> parse_input [114, 111, 111, 116, 115, 58, 32, 97, 58, 98] = Inr ([], [])"
  by (simp add: ev_spec ev_parse)

text \<open>
  The segment must not be empty either: in \<open>roots:suffixes: roots: a\<close> the segment of the
  first roots label is empty, the match fails there, and the search goes on to the
  second roots label, so that \<open>a\<close> is returned.
\<close>

lemma parse_input_empty_segment_example:
  "spec_roots_segment [114, 111, 111, 116, 115, 58, 115, 117, 102, 102, 105, 120, 101, 115, 58, 32, 114, 111, 111, 116, 115, 58, 32, 97] = Some []
   \<and> parse_input [114, 111, 111, 116, 115, 58, 115, 117, 102, 102, 105, 120, 101, 115, 58, 32, 114, 111, 111, 116, 115, 58, 32, 97]
       = Inr ([[97]], [[114, 111, 111, 116, 115, 58, 32, 97]])"
  by (simp add: ev_spec ev_parse)

end
